theory Spec2Isabelle
  imports Complex_Main "HOL-Library.Word" "HOL-Library.Stream" "HOL-Library.Multiset"
begin

unbundle bit_operations_syntax

section \<open>The C platform\<close>

text \<open>
  The source is \<^verbatim>\<open>pyTsetlinMachine/MultiClassConvolutionalTsetlinMachine.c\<close>. An
  \<^verbatim>\<open>unsigned int\<close> is a 32-bit word. An \<^verbatim>\<open>int\<close> is a HOL integer (signed
  overflow is undefined in C and is not modelled); \<^verbatim>\<open>size_t\<close>, \<^verbatim>\<open>unsigned long\<close>
  and \<^verbatim>\<open>unsigned int\<close> counters are natural numbers with the wrap-around written out.
  Undefined behaviour that the source can reach (an index outside an array, a write through a
  null pointer, a division by zero) is a value of type \<open>error\<close>; a call that does not
  return is \<open>None\<close>.
\<close>

type_synonym word32 = "32 word"

datatype error = OutOfBounds | NullPointer | DivisionByZero | AllocationError

definition RAND_MAX :: nat where
  "RAND_MAX = 2147483647"

definition INT_MAX :: int where
  "INT_MAX = 2147483647"

definition UINT_MAX :: nat where
  "UINT_MAX = 4294967295"

definition SIZE_MAX :: nat where
  "SIZE_MAX = 18446744073709551615"

text \<open>
  \<^verbatim>\<open>rand()\<close> reads a hidden global generator. Its state is the stream of the values
  that the coming calls return; the C standard promises each of them to lie in
  \<open>0 .. RAND_MAX\<close>.
\<close>

type_synonym rng = "nat stream"

definition c_rand :: "rng \<Rightarrow> nat \<times> rng" where
  "c_rand g = (shd g, stl g)"

definition size_t_of_int :: "int \<Rightarrow> nat" where
  "size_t_of_int k = nat (k mod (int SIZE_MAX + 1))"

definition size_t_sub :: "nat \<Rightarrow> nat \<Rightarrow> nat" where
  "size_t_sub a b = (a + (SIZE_MAX + 1) - b) mod (SIZE_MAX + 1)"

definition size_t_add :: "nat \<Rightarrow> nat \<Rightarrow> nat" where
  "size_t_add a b = (a + b) mod (SIZE_MAX + 1)"

definition to_unsigned :: "int \<Rightarrow> nat" where
  "to_unsigned k = nat (k mod (int UINT_MAX + 1))"

definition unsigned_add :: "nat \<Rightarrow> nat \<Rightarrow> nat" where
  "unsigned_add a b = (a + b) mod (UINT_MAX + 1)"

text \<open>
  Conversion of a non-negative integer to a binary floating-point format with \<open>p\<close>
  significant bits, rounding to nearest, ties to even (\<open>p = 24\<close> for \<^verbatim>\<open>float\<close>,
  \<open>p = 53\<close> for \<^verbatim>\<open>double\<close>). The product of two doubles that hold integers is the
  rounded integer product.
\<close>

fun bit_length :: "nat \<Rightarrow> nat" where
  "bit_length n = (if n = 0 then 0 else Suc (bit_length (n div 2)))"

declare bit_length.simps [simp del]

definition fp_round :: "nat \<Rightarrow> nat \<Rightarrow> nat" where
  "fp_round p n =
     (if n < 2 ^ p then n
      else
        let e = bit_length n - p;
            q = n div 2 ^ e;
            rest = n mod 2 ^ e
        in if 2 ^ e < 2 * rest \<or> (2 * rest = 2 ^ e \<and> odd q) then (q + 1) * 2 ^ e
           else q * 2 ^ e)"

text \<open>
  A counted loop \<^verbatim>\<open>for (int i = 0; i < n; i++)\<close> runs its body over \<open>[0..<nat n]\<close>
  and stops at the first undefined step. \<open>for_each\<close> is the same loop for a body
  that may not return.
\<close>

fun for_loop :: "nat list \<Rightarrow> (nat \<Rightarrow> 's \<Rightarrow> error + 's) \<Rightarrow> 's \<Rightarrow> error + 's" where
  "for_loop [] body s = Inr s"
| "for_loop (i # is) body s =
     (case body i s of Inl e \<Rightarrow> Inl e | Inr s' \<Rightarrow> for_loop is body s')"

fun for_each ::
  "nat list \<Rightarrow> (nat \<Rightarrow> 's \<Rightarrow> (error + 's) option) \<Rightarrow> 's \<Rightarrow> (error + 's) option" where
  "for_each [] body s = Some (Inr s)"
| "for_each (i # is) body s =
     (case body i s of
        None \<Rightarrow> None
      | Some (Inl e) \<Rightarrow> Some (Inl e)
      | Some (Inr s') \<Rightarrow> for_each is body s')"

section \<open>The single-class engine\<close>

text \<open>
  \<^verbatim>\<open>struct TsetlinMachine\<close> and the functions \<^verbatim>\<open>tm_*\<close> belong to the engine, which
  is not part of this file. The record has the fields that the source reads and writes
  (\<open>number_of_clauses\<close>, \<open>number_of_clause_chunks\<close>, \<open>number_of_features\<close>,
  \<open>number_of_ta_chunks\<close>, \<open>clause_output\<close>, \<open>drop_clause\<close>, \<open>drop_literal\<close>)
  and the two arrays that the state accessors copy; whatever else an engine holds is the
  record's extension. The engine's functions are parameters of the operations below.
\<close>

record TsetlinMachine =
  number_of_clauses :: int
  number_of_clause_chunks :: int
  number_of_features :: int
  number_of_ta_chunks :: int
  clause_output :: "word32 list"
  drop_clause :: "word32 list"
  drop_literal :: "word32 list"
  ta_state :: "word32 list"
  clause_weights :: "word32 list"

type_synonym 'z tm = "'z TsetlinMachine_scheme"

text \<open>\<^verbatim>\<open>int tm_score(struct TsetlinMachine *tm, unsigned int *Xi)\<close>: the score and the
  engine as the call leaves it.\<close>

type_synonym 'z score_fn = "'z tm \<Rightarrow> word32 list \<Rightarrow> int \<times> 'z tm"

text \<open>\<^verbatim>\<open>void tm_update(struct TsetlinMachine *tm, unsigned int *Xi, int target)\<close>: the
  engine and the generator as the call leaves them.\<close>

type_synonym 'z update_fn = "'z tm \<Rightarrow> word32 list \<Rightarrow> int \<Rightarrow> rng \<Rightarrow> 'z tm \<times> rng"

text \<open>Modelled from the spec: \<^verbatim>\<open>tm_get_ta_state\<close>, \<^verbatim>\<open>tm_set_ta_state\<close>,
  \<^verbatim>\<open>tm_get_clause_weights\<close> and \<^verbatim>\<open>tm_set_clause_weights\<close> are missing from the
  sources. The spec describes them as bulk copies of the engine's automaton state array
  and clause-weight array to and from buffers of the caller, of exactly the arrays'
  sizes.\<close>

definition tm_get_ta_state :: "'z tm \<Rightarrow> word32 list" where
  "tm_get_ta_state tm = ta_state tm"

definition tm_get_clause_weights :: "'z tm \<Rightarrow> word32 list" where
  "tm_get_clause_weights tm = clause_weights tm"

definition tm_set_ta_state :: "'z tm \<Rightarrow> word32 list \<Rightarrow> 'z tm" where
  "tm_set_ta_state tm buffer = tm\<lparr>ta_state := buffer\<rparr>"

definition tm_set_clause_weights :: "'z tm \<Rightarrow> word32 list \<Rightarrow> 'z tm" where
  "tm_set_clause_weights tm buffer = tm\<lparr>clause_weights := buffer\<rparr>"

section \<open>The multiclass machine\<close>

text \<open>
  \<^verbatim>\<open>struct MultiClassTsetlinMachine\<close>. \<open>tsetlin_machines\<close> is the array of engine
  pointers; slot \<open>i\<close> holds the engine of class \<open>i\<close>, and no two slots share an
  engine. The field \<^verbatim>\<open>number_of_ta_chunks\<close> of the multiclass struct is
  \<open>mc_number_of_ta_chunks\<close>, since the engine has a field of that name.
\<close>

record 'z MultiClassTsetlinMachine =
  number_of_classes :: int
  tsetlin_machines :: "'z tm list"
  number_of_patches :: int
  mc_number_of_ta_chunks :: int
  number_of_state_bits :: int
  clause_drop_p :: real
  literal_drop_p :: real

subsection \<open>CreateMultiClassTsetlinMachine\<close>

text \<open>
  The two \<^verbatim>\<open>malloc\<close> calls may return null; \<open>mc_allocated\<close> and
  \<open>machines_allocated\<close> say whether they did not. The source checks neither result:
  the first write through a null result is undefined behaviour.
\<close>

definition CreateMultiClassTsetlinMachine ::
  "(int \<Rightarrow> int \<Rightarrow> int \<Rightarrow> int \<Rightarrow> int \<Rightarrow> int \<Rightarrow> real \<Rightarrow> real \<Rightarrow> int \<Rightarrow> int \<Rightarrow> 'z tm) \<Rightarrow>
   bool \<Rightarrow> bool \<Rightarrow>
   int \<Rightarrow> int \<Rightarrow> int \<Rightarrow> int \<Rightarrow> int \<Rightarrow> int \<Rightarrow> int \<Rightarrow> real \<Rightarrow> real \<Rightarrow> int \<Rightarrow> int \<Rightarrow> real \<Rightarrow> real \<Rightarrow>
   error + 'z MultiClassTsetlinMachine" where
  "CreateMultiClassTsetlinMachine CreateTsetlinMachine mc_allocated machines_allocated
     classes clauses features patches ta_chunks state_bits T s s_range
     boost_true_positive_feedback weighted_clauses clause_p literal_p =
     (if \<not> mc_allocated then Inl NullPointer
      else if 0 < classes \<and> \<not> machines_allocated then Inl NullPointer
      else Inr \<lparr>number_of_classes = classes,
                tsetlin_machines =
                  map (\<lambda>i. CreateTsetlinMachine clauses features patches ta_chunks state_bits
                              T s s_range boost_true_positive_feedback weighted_clauses)
                    [0..<nat classes],
                number_of_patches = patches,
                mc_number_of_ta_chunks = ta_chunks,
                number_of_state_bits = state_bits,
                clause_drop_p = clause_p,
                literal_drop_p = literal_p\<rparr>)"

subsection \<open>mc_tm_predict\<close>

text \<open>
  \<^verbatim>\<open>&X[pos]\<close> is the buffer \<open>X\<close> from word \<open>pos\<close> on. The output array
  \<^verbatim>\<open>y\<close> is written at \<open>l = 0, 1, ...\<close> in this order and is returned as a list.
\<close>

definition predict_class ::
  "'z score_fn \<Rightarrow> word32 list \<Rightarrow> nat \<Rightarrow> 'z tm list \<times> int \<times> int \<Rightarrow>
   error + ('z tm list \<times> int \<times> int)" where
  "predict_class tm_score Xi i st =
     (case st of (tms, max_class_sum, max_class) \<Rightarrow>
        if i < length tms then
          (case tm_score (tms ! i) Xi of (class_sum, tm') \<Rightarrow>
             if max_class_sum < class_sum then Inr (tms[i := tm'], class_sum, int i)
             else Inr (tms[i := tm'], max_class_sum, max_class))
        else Inl OutOfBounds)"

definition predict_example ::
  "'z score_fn \<Rightarrow> 'z MultiClassTsetlinMachine \<Rightarrow> word32 list \<Rightarrow>
   error + (int \<times> 'z MultiClassTsetlinMachine)" where
  "predict_example tm_score mc Xi =
     (case tsetlin_machines mc of
        [] \<Rightarrow> Inl OutOfBounds
      | tm0 # rest \<Rightarrow>
          (case tm_score tm0 Xi of (max_class_sum, tm0') \<Rightarrow>
             (case for_loop [1..<nat (number_of_classes mc)] (predict_class tm_score Xi)
                     (tm0' # rest, max_class_sum, 0) of
                Inl e \<Rightarrow> Inl e
              | Inr (tms, _, max_class) \<Rightarrow> Inr (max_class, mc\<lparr>tsetlin_machines := tms\<rparr>))))"

definition mc_tm_predict ::
  "'z score_fn \<Rightarrow> 'z MultiClassTsetlinMachine \<Rightarrow> word32 list \<Rightarrow> int \<Rightarrow>
   error + (int list \<times> 'z MultiClassTsetlinMachine)" where
  "mc_tm_predict tm_score mc X number_of_examples =
     (let step_size = to_unsigned (number_of_patches mc * mc_number_of_ta_chunks mc) in
      case for_loop [0..<nat number_of_examples]
             (\<lambda>l (mc1, pos, y).
                case predict_example tm_score mc1 (drop pos X) of
                  Inl e \<Rightarrow> Inl e
                | Inr (max_class, mc2) \<Rightarrow> Inr (mc2, unsigned_add pos step_size, y @ [max_class]))
             (mc, 0, []) of
        Inl e \<Rightarrow> Inl e
      | Inr (mc', _, y) \<Rightarrow> Inr (y, mc'))"

subsection \<open>mc_tm_update\<close>

text \<open>
  \<^verbatim>\<open>(unsigned int)number_of_classes * 1.0*rand()/((unsigned int)RAND_MAX + 1)\<close>: the
  product is a double, the division by \<open>2^31\<close> is exact, and the conversion to
  \<^verbatim>\<open>unsigned int\<close> truncates.
\<close>

definition draw_class :: "int \<Rightarrow> nat \<Rightarrow> nat" where
  "draw_class classes r = fp_round 53 (to_unsigned classes * r) div (RAND_MAX + 1)"

partial_function (option) negative_loop :: "int \<Rightarrow> int \<Rightarrow> nat \<Rightarrow> rng \<Rightarrow> (nat \<times> rng) option" where
  "negative_loop classes target_class negative_target_class g =
     (if negative_target_class = to_unsigned target_class then
        negative_loop classes target_class (draw_class classes (fst (c_rand g))) (snd (c_rand g))
      else Some (negative_target_class, g))"

definition mc_tm_update ::
  "'z update_fn \<Rightarrow> 'z MultiClassTsetlinMachine \<Rightarrow> word32 list \<Rightarrow> int \<Rightarrow> rng \<Rightarrow>
   (error + ('z MultiClassTsetlinMachine \<times> rng)) option" where
  "mc_tm_update tm_update mc Xi target_class g =
     (let tms = tsetlin_machines mc in
      if target_class < 0 \<or> int (length tms) \<le> target_class then Some (Inl OutOfBounds)
      else
        (case tm_update (tms ! nat target_class) Xi 1 g of (tm1, g1) \<Rightarrow>
           (let tms1 = tms[nat target_class := tm1] in
            case negative_loop (number_of_classes mc) target_class
                   (draw_class (number_of_classes mc) (fst (c_rand g1))) (snd (c_rand g1)) of
              None \<Rightarrow> None
            | Some (negative_target_class, g2) \<Rightarrow>
                if length tms1 \<le> negative_target_class then Some (Inl OutOfBounds)
                else
                  (case tm_update (tms1 ! negative_target_class) Xi 0 g2 of (tm0, g3) \<Rightarrow>
                     Some (Inr (mc\<lparr>tsetlin_machines := tms1[negative_target_class := tm0]\<rparr>,
                                g3))))))"

subsection \<open>shuffle\<close>

function shuffle_loop :: "int list \<Rightarrow> nat \<Rightarrow> nat \<Rightarrow> rng \<Rightarrow> error + (int list \<times> rng)" where
  "shuffle_loop array n i g =
     (if i < size_t_sub n 1 then
        (if size_t_sub n i = 0 then Inl DivisionByZero
         else
           let (r, g') = c_rand g;
               j = size_t_add i (r div (size_t_add (RAND_MAX div size_t_sub n i) 1))
           in if j < length array \<and> i < length array
              then shuffle_loop (array[j := array ! i, i := array ! j]) n (i + 1) g'
              else Inl OutOfBounds)
      else Inr (array, g))"
  by pat_completeness auto
termination
  by (relation "measure (\<lambda>(array, n, i, g). size_t_sub n 1 - i)") auto

declare shuffle_loop.simps [simp del]

definition shuffle :: "int list \<Rightarrow> nat \<Rightarrow> rng \<Rightarrow> error + (int list \<times> rng)" where
  "shuffle array n g = shuffle_loop array n 0 g"

subsection \<open>mc_tm_fit\<close>

text \<open>\<^verbatim>\<open>for (j = 0; j < n; j++) chunks[j] = 0;\<close>\<close>

definition clear_chunks :: "int \<Rightarrow> word32 list \<Rightarrow> error + word32 list" where
  "clear_chunks n chunks =
     for_loop [0..<nat n]
       (\<lambda>j c. if j < length c then Inr (c[j := 0]) else Inl OutOfBounds) chunks"

text \<open>\<^verbatim>\<open>((float)rand())/((float)RAND_MAX)\<close>: both conversions round to 24 bits; the
  divisor is \<open>2^31\<close>, so the quotient is exact.\<close>

definition drop_draw :: "nat \<Rightarrow> real" where
  "drop_draw r = real (fp_round 24 r) / real (fp_round 24 RAND_MAX)"

text \<open>\<^verbatim>\<open>for (j = 0; j < n; j++) if (((float)rand())/((float)RAND_MAX) < p)
  chunks[j / 32] |= (1 << (j % 32));\<close>\<close>

definition drop_bits :: "int \<Rightarrow> real \<Rightarrow> word32 list \<times> rng \<Rightarrow> error + (word32 list \<times> rng)" where
  "drop_bits n p st =
     for_loop [0..<nat n]
       (\<lambda>j (c, g).
          if drop_draw (fst (c_rand g)) < p then
            (if j div 32 < length c
             then Inr (c[j div 32 := c ! (j div 32) OR push_bit (j mod 32) 1], snd (c_rand g))
             else Inl OutOfBounds)
          else Inr (c, snd (c_rand g)))
       st"

text \<open>The body of the loop over the classes that draws the masks of an epoch.\<close>

definition fit_drop ::
  "real \<Rightarrow> real \<Rightarrow> nat \<Rightarrow> 'z tm list \<times> rng \<Rightarrow> error + ('z tm list \<times> rng)" where
  "fit_drop clause_p literal_p i st =
     (case st of (tms, g) \<Rightarrow>
        if i < length tms then
          (let tm = tms ! i in
           case clear_chunks (number_of_clause_chunks tm) (drop_clause tm) of
             Inl e \<Rightarrow> Inl e
           | Inr dc0 \<Rightarrow>
           (case drop_bits (number_of_clauses tm) clause_p (dc0, g) of
             Inl e \<Rightarrow> Inl e
           | Inr (dc, g1) \<Rightarrow>
           (case clear_chunks (number_of_ta_chunks tm) (drop_literal tm) of
             Inl e \<Rightarrow> Inl e
           | Inr dl0 \<Rightarrow>
           (case drop_bits (number_of_features tm) literal_p (dl0, g1) of
             Inl e \<Rightarrow> Inl e
           | Inr (dl, g2) \<Rightarrow>
               Inr (tms[i := tm\<lparr>drop_clause := dc, drop_literal := dl\<rparr>], g2)))))
        else Inl OutOfBounds)"

text \<open>The body of the loop over the classes that turns the masks off.\<close>

definition fit_clear :: "nat \<Rightarrow> 'z tm list \<Rightarrow> error + 'z tm list" where
  "fit_clear i tms =
     (if i < length tms then
        (let tm = tms ! i in
         case clear_chunks (number_of_clause_chunks tm) (drop_clause tm) of
           Inl e \<Rightarrow> Inl e
         | Inr dc \<Rightarrow>
         (case clear_chunks (number_of_ta_chunks tm) (drop_literal tm) of
           Inl e \<Rightarrow> Inl e
         | Inr dl \<Rightarrow> Inr (tms[i := tm\<lparr>drop_clause := dc, drop_literal := dl\<rparr>])))
      else Inl OutOfBounds)"

text \<open>The body of the loop over the examples:
  \<^verbatim>\<open>mc_tm_update(mc_tm, &X[index[i]*number_of_patches*number_of_ta_chunks], y[index[i]])\<close>.\<close>

definition fit_example ::
  "'z update_fn \<Rightarrow> word32 list \<Rightarrow> int list \<Rightarrow> int list \<Rightarrow> nat \<Rightarrow>
   'z MultiClassTsetlinMachine \<times> rng \<Rightarrow> (error + ('z MultiClassTsetlinMachine \<times> rng)) option" where
  "fit_example tm_update X y index i st =
     (case st of (mc, g) \<Rightarrow>
        if i < length index then
          (let l = index ! i;
               offset = l * number_of_patches mc * mc_number_of_ta_chunks mc
           in if 0 \<le> l \<and> nat l < length y \<and> 0 \<le> offset
              then mc_tm_update tm_update mc (drop (nat offset) X) (y ! nat l) g
              else Some (Inl OutOfBounds))
        else Some (Inl OutOfBounds))"

definition fit_epoch ::
  "'z update_fn \<Rightarrow> word32 list \<Rightarrow> int list \<Rightarrow> int \<Rightarrow>
   int list \<times> 'z MultiClassTsetlinMachine \<times> rng \<Rightarrow>
   (error + (int list \<times> 'z MultiClassTsetlinMachine \<times> rng)) option" where
  "fit_epoch tm_update X y number_of_examples st =
     (case st of (index, mc, g) \<Rightarrow>
      case shuffle index (size_t_of_int number_of_examples) g of
        Inl e \<Rightarrow> Some (Inl e)
      | Inr (index1, g1) \<Rightarrow>
      (case for_loop [0..<nat (number_of_classes mc)]
              (fit_drop (clause_drop_p mc) (literal_drop_p mc)) (tsetlin_machines mc, g1) of
        Inl e \<Rightarrow> Some (Inl e)
      | Inr (tms1, g2) \<Rightarrow>
      (case for_each [0..<nat number_of_examples] (fit_example tm_update X y index1)
              (mc\<lparr>tsetlin_machines := tms1\<rparr>, g2) of
        None \<Rightarrow> None
      | Some (Inl e) \<Rightarrow> Some (Inl e)
      | Some (Inr (mc2, g3)) \<Rightarrow>
      (case for_loop [0..<nat (number_of_classes mc2)] fit_clear (tsetlin_machines mc2) of
        Inl e \<Rightarrow> Some (Inl e)
      | Inr tms3 \<Rightarrow> Some (Inr (index1, mc2\<lparr>tsetlin_machines := tms3\<rparr>, g3))))))"

text \<open>
  \<open>index_allocated\<close> says whether \<^verbatim>\<open>malloc\<close> returned a buffer for \<^verbatim>\<open>index\<close>;
  the source does not check it and writes \<^verbatim>\<open>index[0]\<close> when there is an example.
\<close>

definition mc_tm_fit ::
  "'z update_fn \<Rightarrow> bool \<Rightarrow> 'z MultiClassTsetlinMachine \<Rightarrow> word32 list \<Rightarrow> int list \<Rightarrow>
   int \<Rightarrow> int \<Rightarrow> rng \<Rightarrow> (error + ('z MultiClassTsetlinMachine \<times> rng)) option" where
  "mc_tm_fit tm_update index_allocated mc X y number_of_examples epochs g =
     (if 0 < number_of_examples \<and> \<not> index_allocated then Some (Inl NullPointer)
      else
        case for_each [0..<nat epochs] (\<lambda>epoch. fit_epoch tm_update X y number_of_examples)
               (map int [0..<nat number_of_examples], mc, g) of
          None \<Rightarrow> None
        | Some (Inl e) \<Rightarrow> Some (Inl e)
        | Some (Inr (_, mc', g')) \<Rightarrow> Some (Inr (mc', g')))"

subsection \<open>mc_tm_get_state and mc_tm_set_state\<close>

definition mc_tm_get_state ::
  "'z MultiClassTsetlinMachine \<Rightarrow> int \<Rightarrow> error + (word32 list \<times> word32 list)" where
  "mc_tm_get_state mc class =
     (if 0 \<le> class \<and> class < int (length (tsetlin_machines mc)) then
        (let tm = tsetlin_machines mc ! nat class
         in Inr (tm_get_clause_weights tm, tm_get_ta_state tm))
      else Inl OutOfBounds)"

definition mc_tm_set_state ::
  "'z MultiClassTsetlinMachine \<Rightarrow> int \<Rightarrow> word32 list \<Rightarrow> word32 list \<Rightarrow>
   error + 'z MultiClassTsetlinMachine" where
  "mc_tm_set_state mc class weights_buffer state_buffer =
     (if 0 \<le> class \<and> class < int (length (tsetlin_machines mc)) then
        (let tm = tsetlin_machines mc ! nat class
         in Inr (mc\<lparr>tsetlin_machines := (tsetlin_machines mc)
                     [nat class := tm_set_clause_weights (tm_set_ta_state tm state_buffer)
                                     weights_buffer]\<rparr>))
      else Inl OutOfBounds)"

subsection \<open>mc_tm_transform\<close>

text \<open>\<^verbatim>\<open>(clause_output[j / 32] & (1 << (j % 32))) > 0\<close>, an unsigned comparison.\<close>

definition clause_bit :: "'z tm \<Rightarrow> nat \<Rightarrow> bool" where
  "clause_bit tm j = (clause_output tm ! (j div 32) AND push_bit (j mod 32) 1 \<noteq> 0)"

definition transformed_bit :: "bool \<Rightarrow> int \<Rightarrow> word32" where
  "transformed_bit clause_out invert =
     (if clause_out \<and> invert = 0 then 1
      else if \<not> clause_out \<and> invert \<noteq> 0 then 1
      else 0)"

definition transform_clause :: "'z tm \<Rightarrow> int \<Rightarrow> nat \<Rightarrow> word32 list \<Rightarrow> error + word32 list" where
  "transform_clause tm invert j X_transformed =
     (if j div 32 < length (clause_output tm)
      then Inr (X_transformed @ [transformed_bit (clause_bit tm j) invert])
      else Inl OutOfBounds)"

definition transform_class ::
  "'z score_fn \<Rightarrow> word32 list \<Rightarrow> int \<Rightarrow> nat \<Rightarrow> 'z tm list \<times> word32 list \<Rightarrow>
   error + ('z tm list \<times> word32 list)" where
  "transform_class tm_score Xi invert i st =
     (case st of (tms, X_transformed) \<Rightarrow>
        if i < length tms then
          (case tm_score (tms ! i) Xi of (class_sum, tm') \<Rightarrow>
             (case for_loop [0..<nat (number_of_clauses tm')] (transform_clause tm' invert)
                     X_transformed of
                Inl e \<Rightarrow> Inl e
              | Inr X_transformed' \<Rightarrow> Inr (tms[i := tm'], X_transformed')))
        else Inl OutOfBounds)"

definition mc_tm_transform ::
  "'z score_fn \<Rightarrow> 'z MultiClassTsetlinMachine \<Rightarrow> word32 list \<Rightarrow> int \<Rightarrow> int \<Rightarrow>
   error + (word32 list \<times> 'z MultiClassTsetlinMachine)" where
  "mc_tm_transform tm_score mc X invert number_of_examples =
     (let step_size = to_unsigned (number_of_patches mc * mc_number_of_ta_chunks mc) in
      case for_loop [0..<nat number_of_examples]
             (\<lambda>l (tms, pos, X_transformed).
                case for_loop [0..<nat (number_of_classes mc)]
                       (transform_class tm_score (drop pos X) invert) (tms, X_transformed) of
                  Inl e \<Rightarrow> Inl e
                | Inr (tms', X_transformed') \<Rightarrow>
                    Inr (tms', size_t_add pos step_size, X_transformed'))
             (tsetlin_machines mc, 0, []) of
        Inl e \<Rightarrow> Inl e
      | Inr (tms', _, X_transformed) \<Rightarrow> Inr (X_transformed, mc\<lparr>tsetlin_machines := tms'\<rparr>))"

section \<open>Notions of the specification\<close>

text \<open>Two emitted words are complementary when one is 1 and the other is 0.\<close>

definition complementary :: "word32 \<Rightarrow> word32 \<Rightarrow> bool" where
  "complementary a b = ((a = 1 \<and> b = 0) \<or> (a = 0 \<and> b = 1))"


section \<open>An engine for concrete runs\<close>

text \<open>
  The theorems below hold for every engine. To run the operations on concrete inputs, an
  engine is needed: this one scores an example with the sum of its clause weights and
  leaves the first words of the example (zeros where the example ends) in
  \<open>clause_output\<close>.
\<close>

definition example_score :: "unit score_fn" where
  "example_score tm Xi =
     (sum_list (map uint (clause_weights tm)),
      tm\<lparr>clause_output :=
           take (nat (number_of_clause_chunks tm))
             (Xi @ replicate (nat (number_of_clause_chunks tm)) 0)\<rparr>)"

definition example_machine :: "word32 list \<Rightarrow> unit tm" where
  "example_machine weights =
     \<lparr>number_of_clauses = 3, number_of_clause_chunks = 1, number_of_features = 4,
      number_of_ta_chunks = 1, clause_output = [0], drop_clause = [0], drop_literal = [0],
      ta_state = [0, 0, 0], clause_weights = weights\<rparr>"

definition example_mc :: "unit tm list \<Rightarrow> unit MultiClassTsetlinMachine" where
  "example_mc tms =
     \<lparr>number_of_classes = int (length tms), tsetlin_machines = tms, number_of_patches = 1,
      mc_number_of_ta_chunks = 1, number_of_state_bits = 8, clause_drop_p = 0,
      literal_drop_p = 0\<rparr>"

text \<open>Its constructor lays the arrays out from the configuration; its update moves every
  clause weight up by two for target 1 and down by one for target 0 and draws once.\<close>

definition example_create ::
  "int \<Rightarrow> int \<Rightarrow> int \<Rightarrow> int \<Rightarrow> int \<Rightarrow> int \<Rightarrow> real \<Rightarrow> real \<Rightarrow> int \<Rightarrow> int \<Rightarrow> unit tm" where
  "example_create clauses features patches ta_chunks state_bits T s s_range
     boost_true_positive_feedback weighted_clauses =
     \<lparr>number_of_clauses = clauses, number_of_clause_chunks = (clauses - 1) div 32 + 1,
      number_of_features = features, number_of_ta_chunks = ta_chunks,
      clause_output = replicate (nat ((clauses - 1) div 32 + 1)) 0,
      drop_clause = replicate (nat ((clauses - 1) div 32 + 1)) 0,
      drop_literal = replicate (nat ta_chunks) 0,
      ta_state = replicate (nat (clauses * ta_chunks * state_bits)) 0,
      clause_weights = replicate (nat clauses) 1\<rparr>"

definition example_update :: "unit update_fn" where
  "example_update tm Xi target g =
     (tm\<lparr>clause_weights := map (\<lambda>w. if target = 1 then w + 2 else w - 1) (clause_weights tm)\<rparr>,
      stl g)"

section \<open>Shape of the dropout masks\<close>

text \<open>
  The engine allocates \<open>drop_clause\<close> with \<open>number_of_clause_chunks\<close> words and
  \<open>drop_literal\<close> with \<open>number_of_ta_chunks\<close> words. A machine is well shaped when it
  has one engine per class and every engine has masks of these sizes. An update function
  keeps the shape when it does not resize the masks.
\<close>

definition masks_shaped :: "'z tm \<Rightarrow> bool" where
  "masks_shaped tm \<longleftrightarrow>
     length (drop_clause tm) = nat (number_of_clause_chunks tm) \<and>
     length (drop_literal tm) = nat (number_of_ta_chunks tm)"

definition masks_clear :: "'z tm \<Rightarrow> bool" where
  "masks_clear tm \<longleftrightarrow>
     drop_clause tm = replicate (length (drop_clause tm)) 0 \<and>
     drop_literal tm = replicate (length (drop_literal tm)) 0"

definition well_shaped :: "'z MultiClassTsetlinMachine \<Rightarrow> bool" where
  "well_shaped mc \<longleftrightarrow>
     length (tsetlin_machines mc) = nat (number_of_classes mc) \<and>
     list_all masks_shaped (tsetlin_machines mc)"

definition keeps_mask_shape :: "'z update_fn \<Rightarrow> bool" where
  "keeps_mask_shape tm_update \<longleftrightarrow>
     (\<forall>tm Xi target g. masks_shaped tm \<longrightarrow> masks_shaped (fst (tm_update tm Xi target g)))"

section \<open>Examples and scores\<close>

text \<open>
  The operations that only score walk through \<open>X\<close> with a position that grows by
  \<open>step_size\<close> per example and wraps at the width of its C type: \<open>example_at\<close> is
  the pointer they pass to the engine for example \<open>l\<close>. \<open>scored\<close> is an engine after it
  has been scored on the examples \<open>0, ..., l - 1\<close> (a score refreshes the engine's
  \<open>clause_output\<close>). An index is the first maximum of a list of scores when its score is
  the largest and every earlier score is strictly smaller.
\<close>

definition example_at :: "nat \<Rightarrow> nat \<Rightarrow> word32 list \<Rightarrow> nat \<Rightarrow> word32 list" where
  "example_at modulus step_size X l = drop ((l * step_size) mod modulus) X"

primrec scored :: "'z score_fn \<Rightarrow> (nat \<Rightarrow> word32 list) \<Rightarrow> nat \<Rightarrow> 'z tm \<Rightarrow> 'z tm" where
  "scored tm_score example 0 tm = tm"
| "scored tm_score example (Suc l) tm =
     snd (tm_score (scored tm_score example l tm) (example l))"

definition first_maximum :: "int list \<Rightarrow> nat \<Rightarrow> bool" where
  "first_maximum scores c \<longleftrightarrow>
     c < length scores \<and>
     (\<forall>i < length scores. scores ! i \<le> scores ! c) \<and>
     (\<forall>i < c. scores ! i < scores ! c)"

text \<open>
  The transform reads bit \<open>j\<close> of \<open>clause_output\<close> for every clause \<open>j\<close> of an engine
  it has just scored. A score function fits \<open>clauses\<close> clauses, on the engines that
  satisfy \<open>engine_ok\<close>, when scoring such an engine gives such an engine again, with
  \<open>clauses\<close> clauses and a \<open>clause_output\<close> that has a bit for each of them.
\<close>

definition clause_output_fits :: "('z tm \<Rightarrow> bool) \<Rightarrow> 'z score_fn \<Rightarrow> int \<Rightarrow> bool" where
  "clause_output_fits engine_ok tm_score clauses \<longleftrightarrow>
     (\<forall>tm Xi. engine_ok tm \<longrightarrow>
        engine_ok (snd (tm_score tm Xi)) \<and>
        number_of_clauses (snd (tm_score tm Xi)) = clauses \<and>
        nat clauses \<le> 32 * length (clause_output (snd (tm_score tm Xi))))"

section \<open>Moving the state of a class to another machine\<close>

text \<open>
  \<open>restore_class\<close> is \<^verbatim>\<open>mc_tm_get_state\<close> on one machine followed by
  \<^verbatim>\<open>mc_tm_set_state\<close> with the same buffers on the same class of another machine;
  \<open>restore_all\<close> does so for every class in turn. Two engines agree but for
  \<open>clause_output\<close> when that field is their only difference; a score function ignores
  the cache when, on such engines, it gives the same score and leaves engines that again
  agree but for \<open>clause_output\<close> (the spec: \<open>clause_output\<close> is populated as a side
  effect of scoring). Two engines have the same configuration when they differ in
  \<open>ta_state\<close>, \<open>clause_weights\<close> and \<open>clause_output\<close> at most.
\<close>

definition restore_class ::
  "'z MultiClassTsetlinMachine \<Rightarrow> 'z MultiClassTsetlinMachine \<Rightarrow> int \<Rightarrow>
   error + 'z MultiClassTsetlinMachine" where
  "restore_class original other class =
     (case mc_tm_get_state original class of
        Inl e \<Rightarrow> Inl e
      | Inr (weights_buffer, state_buffer) \<Rightarrow>
          mc_tm_set_state other class weights_buffer state_buffer)"

definition restore_all ::
  "'z MultiClassTsetlinMachine \<Rightarrow> 'z MultiClassTsetlinMachine \<Rightarrow>
   error + 'z MultiClassTsetlinMachine" where
  "restore_all original other =
     for_loop [0..<nat (number_of_classes original)]
       (\<lambda>class mc. restore_class original mc (int class)) other"

definition same_but_cache :: "'z tm \<Rightarrow> 'z tm \<Rightarrow> bool" where
  "same_but_cache tm tm' \<longleftrightarrow> tm\<lparr>clause_output := clause_output tm'\<rparr> = tm'"

definition score_ignores_cache :: "'z score_fn \<Rightarrow> bool" where
  "score_ignores_cache tm_score \<longleftrightarrow>
     (\<forall>tm tm' Xi. same_but_cache tm tm' \<longrightarrow>
        fst (tm_score tm Xi) = fst (tm_score tm' Xi) \<and>
        same_but_cache (snd (tm_score tm Xi)) (snd (tm_score tm' Xi)))"

definition same_configuration :: "'z tm \<Rightarrow> 'z tm \<Rightarrow> bool" where
  "same_configuration tm tm' \<longleftrightarrow>
     tm\<lparr>ta_state := ta_state tm', clause_weights := clause_weights tm',
        clause_output := clause_output tm'\<rparr> = tm'"

section \<open>Loops and lists\<close>

lemma for_loop_append:
  "for_loop (xs @ ys) body s =
     (case for_loop xs body s of Inl e \<Rightarrow> Inl e | Inr s' \<Rightarrow> for_loop ys body s')"
  by (induction xs arbitrary: s) (auto split: sum.splits)

lemma for_loop_invariant:
  assumes "\<And>i s s'. i \<in> set xs \<Longrightarrow> P s \<Longrightarrow> body i s = Inr s' \<Longrightarrow> P s'"
    and "P s" and "for_loop xs body s = Inr s'"
  shows "P s'"
  using assms
proof (induction xs arbitrary: s)
  case Nil
  then show ?case by simp
next
  case (Cons x xs)
  from Cons.prems(3) obtain s1 where s1: "body x s = Inr s1" "for_loop xs body s1 = Inr s'"
    by (cases "body x s") simp_all
  have s1P: "P s1" using Cons.prems(1)[of x s s1] Cons.prems(2) s1(1) by simp
  have step: "\<And>i s s'. i \<in> set xs \<Longrightarrow> P s \<Longrightarrow> body i s = Inr s' \<Longrightarrow> P s'"
    using Cons.prems(1) by (meson list.set_intros(2))
  from Cons.IH[OF step s1P s1(2)] show ?case .
qed

lemma for_loop_rel:
  assumes "\<And>i s t. i \<in> set xs \<Longrightarrow> R s t \<Longrightarrow> rel_sum (=) R (f i s) (g i t)"
    and "R s t"
  shows "rel_sum (=) R (for_loop xs f s) (for_loop xs g t)"
  using assms
proof (induction xs arbitrary: s t)
  case Nil
  then show ?case by simp
next
  case (Cons x xs)
  have step: "rel_sum (=) R (f x s) (g x t)" using Cons.prems by simp
  show ?case
  proof (cases "f x s")
    case (Inl e)
    with step show ?thesis by (cases "g x t") simp_all
  next
    case (Inr s')
    with step obtain t' where t': "g x t = Inr t'" "R s' t'" by (cases "g x t") simp_all
    have "rel_sum (=) R (for_loop xs f s') (for_loop xs g t')"
      using Cons.IH[of s' t'] Cons.prems(1) t'(2) by simp
    then show ?thesis using Inr t'(1) by simp
  qed
qed

lemma for_loop_emit:
  assumes "\<And>i s. i \<in> set xs \<Longrightarrow> body i s = Inr (s @ [h i])"
  shows "for_loop xs body s = Inr (s @ map h xs)"
  using assms by (induction xs arbitrary: s) simp_all

lemma for_each_append:
  "for_each (xs @ ys) body s =
     (case for_each xs body s of
        None \<Rightarrow> None
      | Some (Inl e) \<Rightarrow> Some (Inl e)
      | Some (Inr s') \<Rightarrow> for_each ys body s')"
  by (induction xs arbitrary: s) (auto split: option.splits sum.splits)

lemma for_each_invariant:
  assumes "\<And>i s s'. i \<in> set xs \<Longrightarrow> P s \<Longrightarrow> body i s = Some (Inr s') \<Longrightarrow> P s'"
    and "P s" and "for_each xs body s = Some (Inr s')"
  shows "P s'"
  using assms
proof (induction xs arbitrary: s)
  case Nil
  then show ?case by simp
next
  case (Cons x xs)
  from Cons.prems(3) obtain s1 where s1: "body x s = Some (Inr s1)" "for_each xs body s1 = Some (Inr s')"
    by (cases "body x s") (auto split: sum.splits)
  have s1P: "P s1" using Cons.prems(1)[of x s s1] Cons.prems(2) s1(1) by simp
  have step: "\<And>i s s'. i \<in> set xs \<Longrightarrow> P s \<Longrightarrow> body i s = Some (Inr s') \<Longrightarrow> P s'"
    using Cons.prems(1) by (meson list.set_intros(2))
  from Cons.IH[OF step s1P s1(2)] show ?case .
qed

lemma map_prefix_nth: "m < length xs \<Longrightarrow> (map f (take m xs) @ drop m xs) ! m = xs ! m"
  by (simp add: nth_append)

lemma map_prefix_update:
  assumes "m < length xs"
  shows "(map f (take m xs) @ drop m xs)[m := f (xs ! m)] =
         map f (take (Suc m) xs) @ drop (Suc m) xs"
proof -
  have "drop m xs = xs ! m # drop (Suc m) xs"
    using assms by (simp add: Cons_nth_drop_Suc)
  then show ?thesis
    using assms by (simp add: list_update_append take_Suc_conv_app_nth)
qed

lemma index_prefix_nth: "m < length xs \<Longrightarrow> (map f [0..<m] @ drop m xs) ! m = xs ! m"
  by (simp add: nth_append)

lemma index_prefix_update:
  assumes "m < length xs"
  shows "(map f [0..<m] @ drop m xs)[m := f m] = map f [0..<Suc m] @ drop (Suc m) xs"
proof -
  have "drop m xs = xs ! m # drop (Suc m) xs"
    using assms by (simp add: Cons_nth_drop_Suc)
  then show ?thesis by (simp add: list_update_append)
qed

lemma list_all_update: "list_all P xs \<Longrightarrow> P x \<Longrightarrow> list_all P (xs[i := x])"
  by (cases "i < length xs") (auto simp: list_all_length nth_list_update)

lemma concat_blocks_length:
  assumes "\<And>a. a < n \<Longrightarrow> length (F a) = len"
  shows "length (concat (map F [0..<n])) = n * len"
  using assms by (induction n) simp_all

lemma concat_blocks_nth:
  assumes "\<And>a. a < n \<Longrightarrow> length (F a) = len" "a < n" "b < len"
  shows "concat (map F [0..<n]) ! (a * len + b) = F a ! b"
  using assms
proof (induction n)
  case 0
  then show ?case by simp
next
  case (Suc n)
  have len: "length (concat (map F [0..<n])) = n * len"
    using Suc.prems(1) by (intro concat_blocks_length) simp
  show ?case
  proof (cases "a < n")
    case True
    then have "a * len + b < n * len"
      using Suc.prems(3)
      by (metis Suc_leI add.commute add_less_cancel_left less_le_trans mult_Suc mult_le_mono1)
    then show ?thesis
      using Suc.IH[OF _ True Suc.prems(3)] Suc.prems(1) len by (simp add: nth_append)
  next
    case False
    then have "a = n" using Suc.prems(2) by simp
    then show ?thesis using len by (simp add: nth_append)
  qed
qed

section \<open>Arithmetic of the platform\<close>

lemma pick_bound:
  assumes "1 \<le> m" "r \<le> R"
  shows "r div (R div m + 1) < (m::nat)"
proof -
  have "R mod m < m" using assms(1) by simp
  moreover have "R = m * (R div m) + R mod m" by simp
  ultimately have "R < m * (R div m + 1)"
    by (metis add_less_cancel_left distrib_left mult.right_neutral)
  with assms(2) have "r < m * (R div m + 1)" by simp
  then show ?thesis
    by (rule less_mult_imp_div_less)
qed

lemma size_t_sub_small: "b \<le> a \<Longrightarrow> a \<le> SIZE_MAX \<Longrightarrow> size_t_sub a b = a - b"
  unfolding size_t_sub_def
  by (metis Nat.add_diff_assoc2 add.commute le_imp_less_Suc less_imp_diff_less mod_add_self1 mod_less Suc_eq_plus1)

lemma size_t_add_small: "a + b \<le> SIZE_MAX \<Longrightarrow> size_t_add a b = a + b"
  by (simp add: size_t_add_def)

lemma int_range_le_SIZE_MAX: "n \<le> 2147483647 \<Longrightarrow> n \<le> SIZE_MAX"
  by (simp add: SIZE_MAX_def)

lemma size_t_of_int_small: "0 \<le> k \<Longrightarrow> k \<le> INT_MAX \<Longrightarrow> size_t_of_int k = nat k"
  by (simp add: size_t_of_int_def INT_MAX_def SIZE_MAX_def)

lemma quotient_small: "RAND_MAX div m + 1 \<le> SIZE_MAX"
proof -
  have "RAND_MAX div m \<le> RAND_MAX" by (rule div_le_dividend)
  moreover have "RAND_MAX + 1 \<le> SIZE_MAX" by (simp add: RAND_MAX_def SIZE_MAX_def)
  ultimately show ?thesis by linarith
qed


lemma unsigned_add_position:
  "unsigned_add ((l * step_size) mod (UINT_MAX + 1)) step_size =
   (Suc l * step_size) mod (UINT_MAX + 1)"
proof -
  have "(l * step_size mod (UINT_MAX + 1) + step_size) mod (UINT_MAX + 1) =
        (l * step_size + step_size) mod (UINT_MAX + 1)"
    by (rule mod_add_left_eq)
  moreover have "l * step_size + step_size = Suc l * step_size" by simp
  ultimately show ?thesis unfolding unsigned_add_def by (simp only:)
qed

lemma size_t_add_position:
  "size_t_add ((l * step_size) mod (SIZE_MAX + 1)) step_size =
   (Suc l * step_size) mod (SIZE_MAX + 1)"
proof -
  have "(l * step_size mod (SIZE_MAX + 1) + step_size) mod (SIZE_MAX + 1) =
        (l * step_size + step_size) mod (SIZE_MAX + 1)"
    by (rule mod_add_left_eq)
  moreover have "l * step_size + step_size = Suc l * step_size" by simp
  ultimately show ?thesis unfolding size_t_add_def by (simp only:)
qed

subsection \<open>Rounding to a floating-point format\<close>

lemma bit_length_zero: "bit_length 0 = 0"
  by (simp add: bit_length.simps)

lemma bit_length_one: "bit_length (Suc 0) = Suc 0"
  by (simp add: bit_length.simps)

lemma bit_length_numeral: "bit_length (numeral k) = Suc (bit_length (numeral k div 2))"
  by (subst bit_length.simps) simp






subsection \<open>The values of rand() behind a class\<close>





section \<open>Running the operations on concrete inputs\<close>

lemma negative_loop_stop:
  "negative_target_class \<noteq> to_unsigned target_class \<Longrightarrow>
   negative_loop classes target_class negative_target_class g = Some (negative_target_class, g)"
  by (subst negative_loop.simps) simp

lemma negative_loop_retry:
  "negative_target_class = to_unsigned target_class \<Longrightarrow>
   negative_loop classes target_class negative_target_class g =
   negative_loop classes target_class (draw_class classes (shd g)) (stl g)"
  by (subst negative_loop.simps) (simp add: c_rand_def)

lemma shuffle_loop_stop:
  "\<not> i < size_t_sub n 1 \<Longrightarrow> shuffle_loop array n i g = Inr (array, g)"
  by (subst shuffle_loop.simps) simp

lemma shuffle_loop_step:
  "i < size_t_sub n 1 \<Longrightarrow>
   shuffle_loop array n i g =
     (if size_t_sub n i = 0 then Inl DivisionByZero
      else
        let j = size_t_add i (shd g div (size_t_add (RAND_MAX div size_t_sub n i) 1))
        in if j < length array \<and> i < length array
           then shuffle_loop (array[j := array ! i, i := array ! j]) n (i + 1) (stl g)
           else Inl OutOfBounds)"
  by (subst shuffle_loop.simps) (simp add: c_rand_def)

lemmas platform_eval = c_rand_def size_t_of_int_def size_t_sub_def size_t_add_def
  to_unsigned_def unsigned_add_def SIZE_MAX_def UINT_MAX_def RAND_MAX_def INT_MAX_def
  draw_class_def drop_draw_def fp_round_def bit_length_zero bit_length_one bit_length_numeral
  upt_conv_Cons Let_def

lemmas example_defs = example_mc_def example_machine_def example_score_def

section \<open>Creation\<close>

text \<open>C9, as the source has it: when both allocations of the container succeed (the array
  of engine pointers is not written when there is no class), creation returns a machine with
  exactly \<open>classes\<close> engines, each the result of the engine constructor on the same ten
  configuration arguments, and keeps the layout parameters and the two dropout
  probabilities in the container. No result of \<^verbatim>\<open>malloc\<close> is checked: when an
  allocation of the container fails, the next write goes through the null pointer, which
  is undefined behaviour and no reported allocation error.\<close>

theorem create_allocates_engines:
  "(mc_allocated \<and> (machines_allocated \<or> classes \<le> 0) \<longrightarrow>
      (\<exists>mc. CreateMultiClassTsetlinMachine CreateTsetlinMachine mc_allocated machines_allocated
               classes clauses features patches ta_chunks state_bits T s s_range
               boost_true_positive_feedback weighted_clauses clause_p literal_p = Inr mc \<and>
            number_of_classes mc = classes \<and>
            length (tsetlin_machines mc) = nat classes \<and>
            (\<forall>i < nat classes. tsetlin_machines mc ! i =
               CreateTsetlinMachine clauses features patches ta_chunks state_bits T s s_range
                 boost_true_positive_feedback weighted_clauses) \<and>
            number_of_patches mc = patches \<and> mc_number_of_ta_chunks mc = ta_chunks \<and>
            number_of_state_bits mc = state_bits \<and>
            clause_drop_p mc = clause_p \<and> literal_drop_p mc = literal_p)) \<and>
   (\<not> (mc_allocated \<and> (machines_allocated \<or> classes \<le> 0)) \<longrightarrow>
      CreateMultiClassTsetlinMachine CreateTsetlinMachine mc_allocated machines_allocated
        classes clauses features patches ta_chunks state_bits T s s_range
        boost_true_positive_feedback weighted_clauses clause_p literal_p = Inl NullPointer)"
  by (auto simp: CreateMultiClassTsetlinMachine_def)

theorem create_allocates_engines_witness:
  "CreateMultiClassTsetlinMachine example_create True True 2 3 4 1 1 8 15 4 1 1 0 0 0 =
     Inr \<lparr>number_of_classes = 2,
          tsetlin_machines = [example_create 3 4 1 1 8 15 4 1 1 0,
                              example_create 3 4 1 1 8 15 4 1 1 0],
          number_of_patches = 1, mc_number_of_ta_chunks = 1, number_of_state_bits = 8,
          clause_drop_p = 0, literal_drop_p = 0\<rparr> \<and>
   CreateMultiClassTsetlinMachine example_create True False 2 3 4 1 1 8 15 4 1 1 0 0 0 =
     Inl NullPointer"
  using create_allocates_engines[of True True 2 example_create 3 4 1 1 8 15 4 1 1 0 0 0]
    create_allocates_engines[of True False 2 example_create 3 4 1 1 8 15 4 1 1 0 0 0]
  by (simp add: CreateMultiClassTsetlinMachine_def upt_conv_Cons)

theorem create_unchecked_allocation:
  "CreateMultiClassTsetlinMachine example_create False True 2 3 4 1 1 8 15 4 1 1 0 0 0 =
     Inl NullPointer \<and>
   CreateMultiClassTsetlinMachine example_create False True 2 3 4 1 1 8 15 4 1 1 0 0 0 \<noteq>
     Inl AllocationError"
  by (simp add: CreateMultiClassTsetlinMachine_def)

section \<open>Prediction\<close>

lemma first_maximum_single: "first_maximum [s] 0"
  by (simp add: first_maximum_def)

lemma first_maximum_extend:
  assumes "first_maximum (take m scores) c" "m < length scores"
  shows "first_maximum (take (Suc m) scores) (if scores ! c < scores ! m then m else c)"
proof -
  have c: "c < m" "\<forall>i < m. scores ! i \<le> scores ! c" "\<forall>i < c. scores ! i < scores ! c"
    using assms by (auto simp: first_maximum_def)
  show ?thesis
  proof (cases "scores ! c < scores ! m")
    case True
    then have "\<forall>i < m. scores ! i < scores ! m" using c(2) by fastforce
    then show ?thesis
      using True assms(2) by (auto simp: first_maximum_def less_Suc_eq order_less_imp_le)
  next
    case False
    then show ?thesis
      using c assms(2) by (auto simp: first_maximum_def less_Suc_eq)
  qed
qed

lemma predict_classes:
  assumes "1 \<le> m" "m \<le> length tms"
  shows "\<exists>c. for_loop [1..<m] (predict_class tm_score Xi)
               (snd (tm_score (tms ! 0) Xi) # tl tms, fst (tm_score (tms ! 0) Xi), 0) =
             Inr (map (\<lambda>tm. snd (tm_score tm Xi)) (take m tms) @ drop m tms,
                  map (\<lambda>tm. fst (tm_score tm Xi)) tms ! c, int c) \<and>
             first_maximum (take m (map (\<lambda>tm. fst (tm_score tm Xi)) tms)) c"
  using assms
proof (induction m rule: nat_induct_at_least)
  case base
  then obtain tm0 rest where tms: "tms = tm0 # rest" by (cases tms) auto
  show ?case
    by (rule exI[of _ 0]) (simp add: tms first_maximum_single)
next
  case (Suc m)
  define f where "f = (\<lambda>tm. snd (tm_score tm Xi))"
  define scores where "scores = map (\<lambda>tm. fst (tm_score tm Xi)) tms"
  define mid where "mid = map f (take m tms) @ drop m tms"
  from Suc have m: "m < length tms" by simp
  from Suc obtain c where
    first: "for_loop [1..<m] (predict_class tm_score Xi)
              (f (tms ! 0) # tl tms, fst (tm_score (tms ! 0) Xi), 0) = Inr (mid, scores ! c, int c)"
    and fm: "first_maximum (take m scores) c"
    unfolding f_def scores_def mid_def by auto
  have nth: "mid ! m = tms ! m" unfolding mid_def using m by (rule map_prefix_nth)
  have upd: "mid[m := f (tms ! m)] = map f (take (Suc m) tms) @ drop (Suc m) tms"
    unfolding mid_def using m by (rule map_prefix_update)
  have len: "m < length mid" using m by (simp add: mid_def)
  have sm: "fst (tm_score (tms ! m) Xi) = scores ! m" using m by (simp add: scores_def)
  define c' where "c' = (if scores ! c < scores ! m then m else c)"
  have step: "predict_class tm_score Xi m (mid, scores ! c, int c) =
              Inr (map f (take (Suc m) tms) @ drop (Suc m) tms, scores ! c', int c')"
    using len nth upd sm
    by (cases "tm_score (tms ! m) Xi") (simp add: predict_class_def f_def c'_def)
  have "[1..<Suc m] = [1..<m] @ [m]" using Suc.hyps by simp
  then have "for_loop [1..<Suc m] (predict_class tm_score Xi)
               (f (tms ! 0) # tl tms, fst (tm_score (tms ! 0) Xi), 0) =
             Inr (map f (take (Suc m) tms) @ drop (Suc m) tms, scores ! c', int c')"
    using first step by (simp add: for_loop_append)
  moreover have "first_maximum (take (Suc m) scores) c'"
    unfolding c'_def using fm m by (intro first_maximum_extend) (simp_all add: scores_def)
  ultimately show ?case unfolding f_def scores_def by blast
qed

lemma predict_example_result:
  assumes "1 \<le> number_of_classes mc" "length (tsetlin_machines mc) = nat (number_of_classes mc)"
  shows "\<exists>c. predict_example tm_score mc Xi =
               Inr (int c, mc\<lparr>tsetlin_machines :=
                              map (\<lambda>tm. snd (tm_score tm Xi)) (tsetlin_machines mc)\<rparr>) \<and>
             first_maximum (map (\<lambda>tm. fst (tm_score tm Xi)) (tsetlin_machines mc)) c"
proof -
  define tms where "tms = tsetlin_machines mc"
  define k where "k = nat (number_of_classes mc)"
  have k: "1 \<le> k" "k \<le> length tms" "length tms = k"
    using assms by (simp_all add: k_def tms_def)
  then obtain tm0 rest where tms: "tms = tm0 # rest" by (cases tms) auto
  from predict_classes[OF k(1,2), of tm_score Xi] obtain c where
    loop: "for_loop [1..<k] (predict_class tm_score Xi)
             (snd (tm_score tm0 Xi) # rest, fst (tm_score tm0 Xi), 0) =
           Inr (map (\<lambda>tm. snd (tm_score tm Xi)) tms,
                map (\<lambda>tm. fst (tm_score tm Xi)) tms ! c, int c)"
    and fm: "first_maximum (map (\<lambda>tm. fst (tm_score tm Xi)) tms) c"
    using k(3) by (auto simp: tms)
  have "predict_example tm_score mc Xi =
          Inr (int c, mc\<lparr>tsetlin_machines := map (\<lambda>tm. snd (tm_score tm Xi)) tms\<rparr>)"
    unfolding predict_example_def tms_def[symmetric] k_def[symmetric]
    using loop by (cases "tm_score tm0 Xi") (simp add: tms)
  then show ?thesis using fm unfolding tms_def by blast
qed

lemma predict_examples:
  assumes "1 \<le> number_of_classes mc" "length (tsetlin_machines mc) = nat (number_of_classes mc)"
  shows "\<exists>y. for_loop [0..<n]
               (\<lambda>l (mc1, pos, y).
                  case predict_example tm_score mc1 (drop pos X) of
                    Inl e \<Rightarrow> Inl e
                  | Inr (max_class, mc2) \<Rightarrow> Inr (mc2, unsigned_add pos step_size, y @ [max_class]))
               (mc, 0, []) =
             Inr (mc\<lparr>tsetlin_machines :=
                      map (scored tm_score (example_at (UINT_MAX + 1) step_size X) n)
                        (tsetlin_machines mc)\<rparr>,
                  (n * step_size) mod (UINT_MAX + 1), y) \<and>
             length y = n \<and>
             (\<forall>l < n. \<exists>c. y ! l = int c \<and>
                first_maximum
                  (map (\<lambda>tm. fst (tm_score
                                    (scored tm_score (example_at (UINT_MAX + 1) step_size X) l tm)
                                    (example_at (UINT_MAX + 1) step_size X l)))
                     (tsetlin_machines mc)) c)"
proof (induction n)
  case 0
  show ?case by (simp add: map_idI)
next
  case (Suc n)
  define ex where "ex = example_at (UINT_MAX + 1) step_size X"
  define tms where "tms = tsetlin_machines mc"
  define body where "body = (\<lambda>(l::nat) (mc1 :: 'a MultiClassTsetlinMachine, pos, y).
                  case predict_example tm_score mc1 (drop pos X) of
                    Inl e \<Rightarrow> Inl e
                  | Inr (max_class, mc2) \<Rightarrow> Inr (mc2, unsigned_add pos step_size, y @ [max_class]))"
  define mcn where "mcn = mc\<lparr>tsetlin_machines := map (scored tm_score ex n) tms\<rparr>"
  from Suc obtain y where
    first: "for_loop [0..<n] body (mc, 0, []) = Inr (mcn, (n * step_size) mod (UINT_MAX + 1), y)"
    and len: "length y = n"
    and old: "\<forall>l < n. \<exists>c. y ! l = int c \<and>
                first_maximum (map (\<lambda>tm. fst (tm_score (scored tm_score ex l tm) (ex l))) tms) c"
    unfolding ex_def tms_def body_def mcn_def by blast
  have wf: "1 \<le> number_of_classes mcn" "length (tsetlin_machines mcn) = nat (number_of_classes mcn)"
    using assms by (simp_all add: mcn_def tms_def)
  have pos: "drop ((n * step_size) mod (UINT_MAX + 1)) X = ex n"
    by (simp add: ex_def example_at_def)
  from predict_example_result[OF wf, of tm_score "ex n"] obtain c where
    one: "predict_example tm_score mcn (ex n) =
            Inr (int c, mc\<lparr>tsetlin_machines := map (scored tm_score ex (Suc n)) tms\<rparr>)"
    and fm: "first_maximum (map (\<lambda>tm. fst (tm_score (scored tm_score ex n tm) (ex n))) tms) c"
    by (auto simp: mcn_def o_def)
  have step: "body n (mcn, (n * step_size) mod (UINT_MAX + 1), y) =
              Inr (mc\<lparr>tsetlin_machines := map (scored tm_score ex (Suc n)) tms\<rparr>,
                   (Suc n * step_size) mod (UINT_MAX + 1), y @ [int c])"
    unfolding body_def prod.case pos one by (simp only: sum.case prod.case unsigned_add_position)
  have run: "for_loop [0..<Suc n] body (mc, 0, []) =
             Inr (mc\<lparr>tsetlin_machines := map (scored tm_score ex (Suc n)) tms\<rparr>,
                  (Suc n * step_size) mod (UINT_MAX + 1), y @ [int c])"
    using first step by (simp add: for_loop_append)
  have new: "\<forall>l < Suc n. \<exists>c'. (y @ [int c]) ! l = int c' \<and>
               first_maximum (map (\<lambda>tm. fst (tm_score (scored tm_score ex l tm) (ex l))) tms) c'"
    using old fm len by (auto simp: less_Suc_eq nth_append)
  show ?case
    unfolding ex_def[symmetric] tms_def[symmetric] body_def[symmetric]
    using run new len by (intro exI[of _ "y @ [int c]"]) simp
qed

text \<open>C3: on a machine with at least one class and one engine per class, prediction
  returns one class per example, in the order of the examples. The class of example \<open>l\<close>
  is the first maximum of the scores that the engines, taken in index order and as the
  examples before left them, give to example \<open>l\<close>: its score is the largest, and every
  class of lower index has a strictly smaller score, so among classes that tie for the
  maximum the lowest index is returned.\<close>

theorem predict_first_maximum:
  assumes "1 \<le> number_of_classes mc"
    and "length (tsetlin_machines mc) = nat (number_of_classes mc)"
  shows "\<exists>y mc'.
           mc_tm_predict tm_score mc X number_of_examples = Inr (y, mc') \<and>
           length y = nat number_of_examples \<and>
           (\<forall>l < nat number_of_examples. \<exists>c. y ! l = int c \<and>
              first_maximum
                (map (\<lambda>tm. fst (tm_score
                   (scored tm_score
                      (example_at (UINT_MAX + 1)
                         (to_unsigned (number_of_patches mc * mc_number_of_ta_chunks mc)) X) l tm)
                   (example_at (UINT_MAX + 1)
                      (to_unsigned (number_of_patches mc * mc_number_of_ta_chunks mc)) X l)))
                 (tsetlin_machines mc)) c)"
proof -
  define step_size where
    "step_size = to_unsigned (number_of_patches mc * mc_number_of_ta_chunks mc)"
  from predict_examples[OF assms, where n = "nat number_of_examples" and tm_score = tm_score
      and X = X and step_size = step_size]
  obtain y where
    run: "for_loop [0..<nat number_of_examples]
               (\<lambda>l (mc1, pos, y).
                  case predict_example tm_score mc1 (drop pos X) of
                    Inl e \<Rightarrow> Inl e
                  | Inr (max_class, mc2) \<Rightarrow> Inr (mc2, unsigned_add pos step_size, y @ [max_class]))
               (mc, 0, []) =
             Inr (mc\<lparr>tsetlin_machines :=
                      map (scored tm_score (example_at (UINT_MAX + 1) step_size X)
                             (nat number_of_examples))
                        (tsetlin_machines mc)\<rparr>,
                  (nat number_of_examples * step_size) mod (UINT_MAX + 1), y)"
    and rest: "length y = nat number_of_examples"
      "\<forall>l < nat number_of_examples. \<exists>c. y ! l = int c \<and>
                first_maximum
                  (map (\<lambda>tm. fst (tm_score
                                    (scored tm_score (example_at (UINT_MAX + 1) step_size X) l tm)
                                    (example_at (UINT_MAX + 1) step_size X l)))
                     (tsetlin_machines mc)) c"
    by blast
  have "mc_tm_predict tm_score mc X number_of_examples =
          Inr (y, mc\<lparr>tsetlin_machines :=
                      map (scored tm_score (example_at (UINT_MAX + 1) step_size X)
                             (nat number_of_examples))
                        (tsetlin_machines mc)\<rparr>)"
    unfolding mc_tm_predict_def Let_def step_size_def[symmetric] run by simp
  then show ?thesis using rest unfolding step_size_def by blast
qed

lemmas predict_defs = mc_tm_predict_def predict_example_def predict_class_def

lemma example_predict:
  "mc_tm_predict example_score
     (example_mc [example_machine [1], example_machine [2], example_machine [2]]) [5, 2] 2 =
   Inr ([1, 1],
        example_mc [(example_machine [1])\<lparr>clause_output := [2]\<rparr>,
                    (example_machine [2])\<lparr>clause_output := [2]\<rparr>,
                    (example_machine [2])\<lparr>clause_output := [2]\<rparr>])"
  by (simp add: predict_defs platform_eval example_defs)

theorem predict_first_maximum_witness:
  "mc_tm_predict example_score
     (example_mc [example_machine [1], example_machine [2], example_machine [2]]) [5, 2] 2 =
   Inr ([1, 1],
        example_mc [(example_machine [1])\<lparr>clause_output := [2]\<rparr>,
                    (example_machine [2])\<lparr>clause_output := [2]\<rparr>,
                    (example_machine [2])\<lparr>clause_output := [2]\<rparr>]) \<and>
   first_maximum [1, 2, 2] 1"
proof -
  have "first_maximum [1, 2, 2] 1"
    by (auto simp: first_maximum_def less_Suc_eq nth_Cons')
  with example_predict
    predict_first_maximum[of
      "example_mc [example_machine [1], example_machine [2], example_machine [2]]"
      example_score "[5, 2]" 2]
  show ?thesis by blast
qed

section \<open>An update trains two engines\<close>






section \<open>The shuffle of an epoch\<close>

lemma shuffle_loop_mset:
  assumes "length array = n" "1 \<le> n" "n \<le> 2147483647" "i \<le> n - 1" "sset g \<subseteq> {..RAND_MAX}"
  shows "\<exists>arr g'. shuffle_loop array n i g = Inr (arr, g') \<and> mset arr = mset array \<and>
           sset g' \<subseteq> {..RAND_MAX}"
  using assms
proof (induction "n - 1 - i" arbitrary: array i g)
  case 0
  then have "i = n - 1" by simp
  moreover have "size_t_sub n 1 = n - 1"
    using 0 by (intro size_t_sub_small int_range_le_SIZE_MAX) simp_all
  ultimately show ?case using 0 by (subst shuffle_loop.simps) simp
next
  case (Suc d)
  then have i: "i < n - 1" by simp
  have n1: "size_t_sub n 1 = n - 1"
    using Suc by (intro size_t_sub_small int_range_le_SIZE_MAX) simp_all
  have ni: "size_t_sub n i = n - i"
    using Suc i by (intro size_t_sub_small int_range_le_SIZE_MAX) simp_all
  define r where "r = shd g"
  have r: "r \<le> RAND_MAX" using Suc.prems(5) by (auto simp: r_def shd_sset subset_iff)
  have q: "size_t_add (RAND_MAX div (n - i)) 1 = RAND_MAX div (n - i) + 1"
    by (rule size_t_add_small) (rule quotient_small)
  define j where "j = i + r div (RAND_MAX div (n - i) + 1)"
  have "r div (RAND_MAX div (n - i) + 1) < n - i"
    using i r by (intro pick_bound) simp_all
  then have jn: "j < n" using i by (simp add: j_def)
  have j': "size_t_add i (r div (RAND_MAX div (n - i) + 1)) = j"
  proof -
    have "i + r div (RAND_MAX div (n - i) + 1) \<le> SIZE_MAX"
      using jn Suc.prems(3) unfolding j_def by (intro int_range_le_SIZE_MAX) simp
    then show ?thesis unfolding j_def by (rule size_t_add_small)
  qed
  define array' where "array' = array[j := array ! i, i := array ! j]"
  have g': "sset (stl g) \<subseteq> {..RAND_MAX}"
    using Suc.prems(5) by (meson stl_sset subset_iff)
  have step: "shuffle_loop array n i g = shuffle_loop array' n (i + 1) (stl g)"
  proof -
    have "i < n" using i by simp
    then show ?thesis
      using i jn Suc.prems(1)
      by (subst shuffle_loop.simps)
        (simp add: n1[unfolded One_nat_def] ni q[unfolded One_nat_def add_Suc_right add_0_right]
          c_rand_def r_def[symmetric] j'[unfolded One_nat_def add_Suc_right add_0_right]
          array'_def Let_def)
  qed
  have "d = n - 1 - (i + 1)" using Suc(2) by simp
  moreover have "length array' = n" using Suc.prems(1) by (simp add: array'_def)
  moreover have "i + 1 \<le> n - 1" using i by simp
  ultimately obtain arr g'' where
    res: "shuffle_loop array' n (i + 1) (stl g) = Inr (arr, g'')" "mset arr = mset array'"
      "sset g'' \<subseteq> {..RAND_MAX}"
    using Suc(1)[of "i + 1" array' "stl g"] Suc.prems(2,3) g' by blast
  have "mset array' = mset array"
    unfolding array'_def using i jn Suc.prems(1) by (intro mset_swap) simp_all
  with res step show ?case by simp
qed

lemma index_set: "0 \<le> n \<Longrightarrow> set (map int [0..<nat n]) = {0..<n}"
  by (simp add: image_int_atLeastLessThan)

text \<open>C4: for at least one example and draws within \<open>0 .. RAND_MAX\<close>, the shuffle of an
  epoch returns, and it turns an arrangement of the indices \<open>0, ..., number_of_examples - 1\<close>
  (the initial index array, or the array left by the epoch before) into an arrangement of
  the same indices: each index occurs exactly once.\<close>

theorem shuffle_permutation:
  assumes "1 \<le> number_of_examples" "number_of_examples \<le> INT_MAX"
    and "mset index = mset (map int [0..<nat number_of_examples])"
    and "sset g \<subseteq> {..RAND_MAX}"
  shows "\<exists>index' g'. shuffle index (size_t_of_int number_of_examples) g = Inr (index', g') \<and>
           mset index' = mset (map int [0..<nat number_of_examples]) \<and>
           length index' = nat number_of_examples \<and> distinct index' \<and>
           set index' = {0..<number_of_examples} \<and> sset g' \<subseteq> {..RAND_MAX}"
proof -
  define n where "n = nat number_of_examples"
  have n: "size_t_of_int number_of_examples = n" "1 \<le> n"
    using assms(1,2) by (simp_all add: n_def size_t_of_int_small)
  have n3: "n \<le> 2147483647" using assms(2) by (simp add: n_def INT_MAX_def)
  have "length index = length (map int [0..<n])"
    using assms(3) unfolding n_def by (rule mset_eq_length)
  then have "length index = n" by simp
  then obtain index' g' where
    res: "shuffle_loop index n 0 g = Inr (index', g')" "mset index' = mset index"
      "sset g' \<subseteq> {..RAND_MAX}"
    using shuffle_loop_mset[of index n 0 g] n n3 assms(4) by auto
  have m: "mset index' = mset (map int [0..<n])"
    using res(2) assms(3) by (simp add: n_def)
  have "distinct (map int [0..<n])" by (simp add: distinct_map)
  then have d: "distinct index'" using m by (metis mset_eq_imp_distinct_iff)
  have "set index' = set (map int [0..<n])" using m by (rule mset_eq_setD)
  then have s: "set index' = {0..<number_of_examples}"
    using assms(1) index_set[of number_of_examples] by (simp add: n_def)
  have "length index' = length (map int [0..<n])" using m by (rule mset_eq_length)
  then have l: "length index' = n" by simp
  show ?thesis using res m d s l by (simp add: shuffle_def n n_def[symmetric])
qed

theorem shuffle_permutation_witness:
  "\<exists>index' g'. shuffle (map int [0..<nat 3]) (size_t_of_int 3)
       (cycle [2147483647, 0, 1073741824]) = Inr (index', g') \<and>
     mset index' = mset (map int [0..<nat 3]) \<and> length index' = nat 3 \<and> distinct index' \<and>
     set index' = {0..<3} \<and> sset g' \<subseteq> {..RAND_MAX}"
  using shuffle_permutation[of 3 "map int [0..<nat 3]" "cycle [2147483647, 0, 1073741824]"]
  by (simp add: INT_MAX_def RAND_MAX_def)

section \<open>Fitting\<close>

subsection \<open>Without epochs or without examples\<close>

text \<open>With no epoch to run (\<open>epochs \<le> 0\<close>), fitting returns with the machine and the
  generator as they were, for every number of examples, provided the index buffer was
  allocated when there is an example.\<close>

theorem fit_without_epochs:
  assumes "epochs \<le> 0" and "number_of_examples \<le> 0 \<or> index_allocated"
  shows "mc_tm_fit tm_update index_allocated mc X y number_of_examples epochs g =
         Some (Inr (mc, g))"
  using assms by (auto simp: mc_tm_fit_def)

theorem fit_without_epochs_witness:
  "mc_tm_fit example_update True (example_mc [example_machine [1], example_machine [2]])
     [5, 2] [0, 1] 2 0 (sconst 0) =
   Some (Inr (example_mc [example_machine [1], example_machine [2]], sconst 0))"
  using fit_without_epochs[of 0 2 True example_update
      "example_mc [example_machine [1], example_machine [2]]" "[5, 2]" "[0, 1]" "sconst 0"]
  by simp

text \<open>With an epoch to run and no example, the first epoch shuffles an empty index
  buffer: \<^verbatim>\<open>n - 1\<close> wraps to \<open>SIZE_MAX\<close>, the loop of \<^verbatim>\<open>shuffle\<close> is entered and
  \<^verbatim>\<open>RAND_MAX / (n - i)\<close> divides by zero, whatever the machine and the engine.\<close>

lemma shuffle_nothing: "shuffle array 0 g = Inl DivisionByZero"
  by (simp add: shuffle_def shuffle_loop.simps size_t_sub_def SIZE_MAX_def)

lemma fit_without_examples_traps:
  assumes "1 \<le> epochs"
  shows "mc_tm_fit tm_update index_allocated mc X y 0 epochs g = Some (Inl DivisionByZero)"
proof -
  from assms obtain m where m: "nat epochs = Suc m" by (cases "nat epochs") simp_all
  have "[0..<nat epochs] = 0 # [1..<Suc m]" unfolding m by (simp add: upt_conv_Cons)
  then show ?thesis
    by (simp add: mc_tm_fit_def fit_epoch_def shuffle_nothing size_t_of_int_def)
qed

text \<open>C5: the claim does not hold of the source. Fitting a machine of two classes on no
  example for one epoch does not return successfully: it stops at the division by zero in
  \<^verbatim>\<open>shuffle\<close>.\<close>

theorem fit_without_examples_divides_by_zero:
  "mc_tm_fit example_update True (example_mc [example_machine [1], example_machine [2]])
     [] [] 0 1 (sconst 0) = Some (Inl DivisionByZero)"
  by (simp add: mc_tm_fit_def fit_epoch_def shuffle_def shuffle_loop.simps size_t_of_int_def
      size_t_sub_def SIZE_MAX_def)

subsection \<open>The masks after fitting\<close>

lemma clear_loop_result:
  "for_loop [0..<m] (\<lambda>j c. if j < length c then Inr (c[j := 0]) else Inl OutOfBounds) c =
     (if m \<le> length c then Inr (replicate m (0::word32) @ drop m c) else Inl OutOfBounds)"
proof (induction m)
  case 0
  then show ?case by simp
next
  case (Suc m)
  show ?case
  proof (cases "m < length c")
    case True
    then have "(replicate m (0::word32) @ drop m c)[m := 0] = replicate (Suc m) 0 @ drop (Suc m) c"
      using map_prefix_update[of m c "\<lambda>_. 0"] by (simp add: map_replicate_const replicate_append_same)
    then show ?thesis using True Suc by (simp add: for_loop_append)
  next
    case False
    then show ?thesis using Suc by (simp add: for_loop_append)
  qed
qed

lemma clear_chunks_result:
  "clear_chunks n c =
     (if nat n \<le> length c then Inr (replicate (nat n) 0 @ drop (nat n) c) else Inl OutOfBounds)"
  unfolding clear_chunks_def by (rule clear_loop_result)

lemma clear_chunks_shaped:
  "length c = nat n \<Longrightarrow> clear_chunks n c = Inr (replicate (nat n) 0)"
  by (simp add: clear_chunks_result)

lemma clear_chunks_length: "clear_chunks n c = Inr c' \<Longrightarrow> length c' = length c"
  by (auto simp: clear_chunks_result split: if_splits)

lemma drop_bits_length:
  assumes "drop_bits n p (c, g) = Inr (c', g')"
  shows "length c' = length c"
proof -
  have "length (fst (c', g')) = length c"
    using assms unfolding drop_bits_def
    by (elim for_loop_invariant[where P = "\<lambda>s. length (fst s) = length c", rotated 2])
      (auto split: if_splits prod.splits)
  then show ?thesis by simp
qed

lemma masks_shaped_update:
  "length dc = length (drop_clause tm) \<Longrightarrow> length dl = length (drop_literal tm) \<Longrightarrow>
   masks_shaped (tm\<lparr>drop_clause := dc, drop_literal := dl\<rparr>) = masks_shaped tm"
  by (simp add: masks_shaped_def)

lemma fit_drop_shape:
  assumes "fit_drop clause_p literal_p i (tms, g) = Inr (tms', g')"
    and "list_all masks_shaped tms"
  shows "length tms' = length tms \<and> list_all masks_shaped tms'"
proof -
  from assms(1) have i: "i < length tms"
    by (auto simp: fit_drop_def split: if_splits)
  define tm where "tm = tms ! i"
  note run = assms(1)[unfolded fit_drop_def prod.case Let_def tm_def[symmetric]]
  obtain dc0 where c1: "clear_chunks (number_of_clause_chunks tm) (drop_clause tm) = Inr dc0"
    using run i by (cases "clear_chunks (number_of_clause_chunks tm) (drop_clause tm)") simp_all
  obtain dc g1 where c2: "drop_bits (number_of_clauses tm) clause_p (dc0, g) = Inr (dc, g1)"
    using run i c1 by (cases "drop_bits (number_of_clauses tm) clause_p (dc0, g)") auto
  obtain dl0 where c3: "clear_chunks (number_of_ta_chunks tm) (drop_literal tm) = Inr dl0"
    using run i c1 c2
    by (cases "clear_chunks (number_of_ta_chunks tm) (drop_literal tm)") simp_all
  obtain dl g2 where c4: "drop_bits (number_of_features tm) literal_p (dl0, g1) = Inr (dl, g2)"
    using run i c1 c2 c3 by (cases "drop_bits (number_of_features tm) literal_p (dl0, g1)") auto
  have tms': "tms' = tms[i := tm\<lparr>drop_clause := dc, drop_literal := dl\<rparr>]"
    using run i c1 c2 c3 c4 by simp
  note steps = c1 c2 c3 c4
  have "length dc = length (drop_clause tm)"
    using steps(1,2) by (simp add: clear_chunks_length drop_bits_length)
  moreover have "length dl = length (drop_literal tm)"
    using steps(3,4) by (simp add: clear_chunks_length drop_bits_length)
  moreover have "masks_shaped tm"
    using assms(2) i by (simp add: tm_def list_all_length)
  ultimately have "masks_shaped (tm\<lparr>drop_clause := dc, drop_literal := dl\<rparr>)"
    by (simp add: masks_shaped_update)
  then show ?thesis using assms(2) by (simp add: tms' list_all_update)
qed

lemma fit_drop_loop_shape:
  assumes "for_loop cs (fit_drop clause_p literal_p) (tms, g) = Inr (tms', g')"
    and "list_all masks_shaped tms"
  shows "length tms' = length tms \<and> list_all masks_shaped tms'"
proof -
  have "length (fst (tms', g')) = length tms \<and> list_all masks_shaped (fst (tms', g'))"
  proof (rule for_loop_invariant[where P = "\<lambda>s. length (fst s) = length tms \<and> list_all masks_shaped (fst s)",
        OF _ _ assms(1)])
    show "length (fst (tms, g)) = length tms \<and> list_all masks_shaped (fst (tms, g))"
      using assms(2) by simp
  next
    fix i s s'
    assume "length (fst s) = length tms \<and> list_all masks_shaped (fst s)"
      and "fit_drop clause_p literal_p i s = Inr s'"
    then show "length (fst s') = length tms \<and> list_all masks_shaped (fst s')"
      using fit_drop_shape[of clause_p literal_p i "fst s" "snd s" "fst s'" "snd s'"] by simp
  qed
  then show ?thesis by simp
qed

text \<open>Turning the masks off gives every engine masks of zeros.\<close>

lemma fit_clear_result:
  assumes "i < length tms" "masks_shaped (tms ! i)"
  shows "fit_clear i tms =
         Inr (tms[i := (tms ! i)\<lparr>drop_clause := replicate (length (drop_clause (tms ! i))) 0,
                                 drop_literal := replicate (length (drop_literal (tms ! i))) 0\<rparr>])"
  using assms by (simp add: fit_clear_def Let_def masks_shaped_def clear_chunks_shaped)

lemma fit_clear_loop_result:
  assumes "m \<le> length tms" "list_all masks_shaped tms"
  shows "for_loop [0..<m] fit_clear tms =
         Inr (map (\<lambda>tm. tm\<lparr>drop_clause := replicate (length (drop_clause tm)) 0,
                            drop_literal := replicate (length (drop_literal tm)) 0\<rparr>) (take m tms)
              @ drop m tms)"
  using assms(1)
proof (induction m)
  case 0
  then show ?case by simp
next
  case (Suc m)
  then have m: "m < length tms" by simp
  define f where "f = (\<lambda>tm :: 'a tm. tm\<lparr>drop_clause := replicate (length (drop_clause tm)) 0,
                            drop_literal := replicate (length (drop_literal tm)) 0\<rparr>)"
  define mid where "mid = map f (take m tms) @ drop m tms"
  have first: "for_loop [0..<m] fit_clear tms = Inr mid"
    using Suc m by (simp add: mid_def f_def)
  have nth: "mid ! m = tms ! m" unfolding mid_def using m by (rule map_prefix_nth)
  have "masks_shaped (tms ! m)" using assms(2) m by (simp add: list_all_length)
  moreover have "m < length mid" using m by (simp add: mid_def)
  ultimately have "fit_clear m mid = Inr (mid[m := f (tms ! m)])"
    using fit_clear_result[of m mid] nth by (simp add: f_def)
  also have "mid[m := f (tms ! m)] = map f (take (Suc m) tms) @ drop (Suc m) tms"
    unfolding mid_def using m by (rule map_prefix_update)
  finally show ?case using first by (simp add: for_loop_append f_def)
qed

lemma fit_clear_loop_clear:
  assumes "length tms = m" "list_all masks_shaped tms" "for_loop [0..<m] fit_clear tms = Inr tms'"
  shows "length tms' = length tms \<and> list_all masks_shaped tms' \<and> list_all masks_clear tms'"
proof -
  have "tms' = map (\<lambda>tm. tm\<lparr>drop_clause := replicate (length (drop_clause tm)) 0,
                            drop_literal := replicate (length (drop_literal tm)) 0\<rparr>) tms"
    using fit_clear_loop_result[of m tms] assms by simp
  then show ?thesis
    using assms(2) by (simp add: list_all_iff masks_shaped_def masks_clear_def)
qed

text \<open>An update touches the engines only and keeps their shapes.\<close>

lemma mc_tm_update_shape:
  assumes "mc_tm_update tm_update mc Xi target_class g = Some (Inr (mc', g'))"
    and "keeps_mask_shape tm_update" and "well_shaped mc"
  shows "well_shaped mc'"
proof -
  define tms where "tms = tsetlin_machines mc"
  from assms(1) have t: "0 \<le> target_class" "nat target_class < length tms"
    by (auto simp: mc_tm_update_def Let_def tms_def split: if_splits)
  obtain tm1 g1 where u1: "tm_update (tms ! nat target_class) Xi 1 g = (tm1, g1)"
    by (cases "tm_update (tms ! nat target_class) Xi 1 g")
  define tms1 where "tms1 = tms[nat target_class := tm1]"
  define start where "start = negative_loop (number_of_classes mc) target_class
      (draw_class (number_of_classes mc) (fst (c_rand g1))) (snd (c_rand g1))"
  have ok: "\<not> (target_class < 0 \<or> int (length (tsetlin_machines mc)) \<le> target_class)"
    using t by (simp add: tms_def)
  have eq: "mc_tm_update tm_update mc Xi target_class g =
      (case start of
         None \<Rightarrow> None
       | Some (neg, g2) \<Rightarrow>
           if length tms1 \<le> neg then Some (Inl OutOfBounds)
           else (case tm_update (tms1 ! neg) Xi 0 g2 of (tm0, g3) \<Rightarrow>
                   Some (Inr (mc\<lparr>tsetlin_machines := tms1[neg := tm0]\<rparr>, g3))))"
    unfolding mc_tm_update_def Let_def start_def tms1_def tms_def if_not_P[OF ok]
      u1[unfolded tms_def] prod.case
    by (rule refl)
  from assms(1) obtain neg g2 where nl: "start = Some (neg, g2)"
    unfolding eq by (cases start) auto
  have n: "neg < length tms1"
    using assms(1) unfolding eq nl by (simp split: if_splits)
  obtain tm0 g3 where u0: "tm_update (tms1 ! neg) Xi 0 g2 = (tm0, g3)"
    by (cases "tm_update (tms1 ! neg) Xi 0 g2")
  have res: "mc' = mc\<lparr>tsetlin_machines := tms1[neg := tm0]\<rparr>"
    using assms(1) n unfolding eq nl by (simp add: u0)
  have shaped: "list_all masks_shaped tms" "length tms = nat (number_of_classes mc)"
    using assms(3) by (simp_all add: well_shaped_def tms_def)
  have "masks_shaped (tms ! nat target_class)"
    using shaped(1) t(2) by (simp add: list_all_length)
  then have "masks_shaped (fst (tm_update (tms ! nat target_class) Xi 1 g))"
    using assms(2) unfolding keeps_mask_shape_def by blast
  then have "masks_shaped tm1" by (simp add: u1)
  then have s1: "list_all masks_shaped tms1"
    using shaped(1) by (simp add: tms1_def list_all_update)
  then have "masks_shaped (tms1 ! neg)"
    using n by (simp add: list_all_length)
  then have "masks_shaped (fst (tm_update (tms1 ! neg) Xi 0 g2))"
    using assms(2) unfolding keeps_mask_shape_def by blast
  then have "masks_shaped tm0" by (simp add: u0)
  then show ?thesis
    using s1 shaped(2) by (simp add: res well_shaped_def list_all_update tms1_def)
qed

lemma fit_example_shape:
  assumes "fit_example tm_update X y index i (mc, g) = Some (Inr (mc', g'))"
    and "keeps_mask_shape tm_update" and "well_shaped mc"
  shows "well_shaped mc'"
  using assms mc_tm_update_shape[of tm_update mc _ _ g mc' g']
  by (auto simp: fit_example_def Let_def split: if_splits)

lemma fit_examples_shape:
  assumes "for_each is (fit_example tm_update X y index) (mc, g) = Some (Inr (mc', g'))"
    and "keeps_mask_shape tm_update" and "well_shaped mc"
  shows "well_shaped mc'"
proof -
  have "well_shaped (fst (mc', g'))"
  proof (rule for_each_invariant[where P = "\<lambda>s. well_shaped (fst s)", OF _ _ assms(1)])
    show "well_shaped (fst (mc, g))" using assms(3) by simp
  next
    fix i s s'
    assume "well_shaped (fst s)" "fit_example tm_update X y index i s = Some (Inr s')"
    then show "well_shaped (fst s')"
      using fit_example_shape[of tm_update X y index i "fst s" "snd s" "fst s'" "snd s'"] assms(2)
      by simp
  qed
  then show ?thesis by simp
qed

lemma fit_epoch_clears:
  assumes "fit_epoch tm_update X y number_of_examples (index, mc, g) = Some (Inr (index', mc', g'))"
    and "keeps_mask_shape tm_update" and "well_shaped mc"
  shows "well_shaped mc' \<and> list_all masks_clear (tsetlin_machines mc')"
proof -
  note run = assms(1)[unfolded fit_epoch_def prod.case]
  obtain index1 g1 where
    sh: "shuffle index (size_t_of_int number_of_examples) g = Inr (index1, g1)"
    using run by (cases "shuffle index (size_t_of_int number_of_examples) g") auto
  obtain tms1 g2 where
    drop: "for_loop [0..<nat (number_of_classes mc)]
             (fit_drop (clause_drop_p mc) (literal_drop_p mc)) (tsetlin_machines mc, g1) =
           Inr (tms1, g2)"
    using run sh
    by (cases "for_loop [0..<nat (number_of_classes mc)]
             (fit_drop (clause_drop_p mc) (literal_drop_p mc)) (tsetlin_machines mc, g1)") auto
  obtain mc2 g3 where
    upd: "for_each [0..<nat number_of_examples] (fit_example tm_update X y index1)
                (mc\<lparr>tsetlin_machines := tms1\<rparr>, g2) = Some (Inr (mc2, g3))"
    using run sh drop
    by (cases "for_each [0..<nat number_of_examples] (fit_example tm_update X y index1)
                (mc\<lparr>tsetlin_machines := tms1\<rparr>, g2)")
      (auto split: sum.splits)
  obtain tms3 where
    clr: "for_loop [0..<nat (number_of_classes mc2)] fit_clear (tsetlin_machines mc2) = Inr tms3"
    using run sh drop upd
    by (cases "for_loop [0..<nat (number_of_classes mc2)] fit_clear (tsetlin_machines mc2)")
      simp_all
  have mc': "mc' = mc2\<lparr>tsetlin_machines := tms3\<rparr>"
    using run sh drop upd clr by simp
  have "length tms1 = length (tsetlin_machines mc) \<and> list_all masks_shaped tms1"
    using fit_drop_loop_shape[OF drop] assms(3) by (simp add: well_shaped_def)
  then have "well_shaped (mc\<lparr>tsetlin_machines := tms1\<rparr>)"
    using assms(3) by (simp add: well_shaped_def)
  then have w2: "well_shaped mc2"
    using fit_examples_shape[OF upd assms(2)] by simp
  then have "length tms3 = length (tsetlin_machines mc2) \<and> list_all masks_shaped tms3 \<and>
             list_all masks_clear tms3"
    using fit_clear_loop_clear[OF _ _ clr] by (simp add: well_shaped_def)
  then show ?thesis using w2 by (simp add: mc' well_shaped_def)
qed

lemma fit_epochs_shape:
  assumes "for_each es (\<lambda>epoch. fit_epoch tm_update X y number_of_examples) (index, mc, g) =
           Some (Inr (index', mc', g'))"
    and "keeps_mask_shape tm_update" and "well_shaped mc"
  shows "well_shaped mc'"
proof -
  have "well_shaped (fst (snd (index', mc', g')))"
  proof (rule for_each_invariant[where P = "\<lambda>s. well_shaped (fst (snd s))", OF _ _ assms(1)])
    show "well_shaped (fst (snd (index, mc, g)))" using assms(3) by simp
  next
    fix i s s'
    assume "well_shaped (fst (snd s))" "fit_epoch tm_update X y number_of_examples s = Some (Inr s')"
    then show "well_shaped (fst (snd s'))"
      using fit_epoch_clears[of tm_update X y number_of_examples "fst s" "fst (snd s)" "snd (snd s)"
          "fst s'" "fst (snd s')" "snd (snd s')"] assms(2)
      by simp
  qed
  then show ?thesis by simp
qed

text \<open>C1, as the source has it: the masks are cleared inside the loop over the epochs.
  After a fit of at least one epoch that returns, on a well-shaped machine and with an
  engine update that does not resize the masks, every word of every engine's
  \<open>drop_clause\<close> and \<open>drop_literal\<close> is zero, whatever the masks held at the call. A fit
  of no epoch leaves the masks as they were.\<close>

theorem fit_clears_masks:
  assumes "keeps_mask_shape tm_update" and "well_shaped mc"
    and "mc_tm_fit tm_update index_allocated mc X y number_of_examples epochs g =
         Some (Inr (mc', g'))"
  shows "(1 \<le> epochs \<longrightarrow>
            list_all masks_clear (tsetlin_machines mc') \<and> well_shaped mc') \<and>
         (epochs \<le> 0 \<longrightarrow> mc' = mc)"
proof -
  have none: "mc' = mc" if "epochs \<le> 0"
    using that assms(3) by (auto simp: mc_tm_fit_def split: if_splits)
  have some: "list_all masks_clear (tsetlin_machines mc') \<and> well_shaped mc'" if e: "1 \<le> epochs"
  proof -
    define last_epoch where "last_epoch = nat epochs - 1"
    have "nat epochs = Suc last_epoch" using e by (simp add: last_epoch_def)
    then have es: "[0..<nat epochs] = [0..<last_epoch] @ [last_epoch]" by simp
    define body where "body = (\<lambda>epoch :: nat. fit_epoch tm_update X y number_of_examples)"
    from assms(3) obtain index' where
      run: "for_each ([0..<last_epoch] @ [last_epoch]) body
              (map int [0..<nat number_of_examples], mc, g) = Some (Inr (index', mc', g'))"
      unfolding mc_tm_fit_def es body_def
      by (auto split: if_splits option.splits sum.splits)
    then obtain index1 mc1 g1 where
      before: "for_each [0..<last_epoch] body (map int [0..<nat number_of_examples], mc, g) =
               Some (Inr (index1, mc1, g1))"
      and final: "fit_epoch tm_update X y number_of_examples (index1, mc1, g1) =
                  Some (Inr (index', mc', g'))"
      by (auto simp: for_each_append body_def split: option.splits sum.splits)
    have "well_shaped mc1"
      using fit_epochs_shape[OF before[unfolded body_def] assms(1,2)] .
    then show ?thesis
      using fit_epoch_clears[OF final assms(1)] by simp
  qed
  show ?thesis using none some by blast
qed

lemmas fit_eval = mc_tm_fit_def fit_epoch_def fit_example_def fit_drop_def fit_clear_def
  clear_chunks_def drop_bits_def mc_tm_update_def shuffle_def shuffle_loop_stop
  shuffle_loop_step negative_loop_stop negative_loop_retry

lemma example_update_keeps_shape: "keeps_mask_shape example_update"
  by (simp add: keeps_mask_shape_def example_update_def masks_shaped_def)

lemma example_fit:
  "mc_tm_fit example_update True
     ((example_mc [(example_machine [1])\<lparr>drop_clause := [5]\<rparr>, example_machine [2]])
        \<lparr>clause_drop_p := 1 / 4, literal_drop_p := 1 / 4\<rparr>)
     [5, 2] [0, 1] 2 1 (cycle [0, 1073741824]) =
   Some (Inr ((example_mc [example_machine [2], example_machine [3]])
                 \<lparr>clause_drop_p := 1 / 4, literal_drop_p := 1 / 4\<rparr>,
              cycle [0, 1073741824]))"
  by (simp add: fit_eval platform_eval example_mc_def example_machine_def example_update_def)

theorem fit_clears_masks_witness:
  "mc_tm_fit example_update True
     ((example_mc [(example_machine [1])\<lparr>drop_clause := [5]\<rparr>, example_machine [2]])
        \<lparr>clause_drop_p := 1 / 4, literal_drop_p := 1 / 4\<rparr>)
     [5, 2] [0, 1] 2 1 (cycle [0, 1073741824]) =
   Some (Inr ((example_mc [example_machine [2], example_machine [3]])
                 \<lparr>clause_drop_p := 1 / 4, literal_drop_p := 1 / 4\<rparr>,
              cycle [0, 1073741824])) \<and>
   list_all masks_clear
     (tsetlin_machines ((example_mc [example_machine [2], example_machine [3]])
                          \<lparr>clause_drop_p := 1 / 4, literal_drop_p := 1 / 4\<rparr>)) \<and>
   well_shaped ((example_mc [example_machine [2], example_machine [3]])
                  \<lparr>clause_drop_p := 1 / 4, literal_drop_p := 1 / 4\<rparr>)"
  using fit_clears_masks[OF example_update_keeps_shape _ example_fit] example_fit
  by (simp add: well_shaped_def masks_shaped_def example_mc_def example_machine_def)

theorem fit_without_epochs_keeps_masks:
  "mc_tm_fit example_update True
     (example_mc [(example_machine [1])\<lparr>drop_clause := [1]\<rparr>, example_machine [2]])
     [5, 2] [0, 1] 2 0 (sconst 0) =
   Some (Inr (example_mc [(example_machine [1])\<lparr>drop_clause := [1]\<rparr>, example_machine [2]],
              sconst 0)) \<and>
   drop_clause ((example_machine [1])\<lparr>drop_clause := [1]\<rparr>) = [1]"
  by (simp add: mc_tm_fit_def example_machine_def)

section \<open>State round trip\<close>

lemma restore_class_result:
  assumes "i < length (tsetlin_machines original)" "i < length (tsetlin_machines other)"
  shows "restore_class original other (int i) =
         Inr (other\<lparr>tsetlin_machines := (tsetlin_machines other)
                [i := (tsetlin_machines other ! i)
                        \<lparr>ta_state := ta_state (tsetlin_machines original ! i),
                         clause_weights := clause_weights (tsetlin_machines original ! i)\<rparr>]\<rparr>)"
  using assms
  by (simp add: restore_class_def mc_tm_get_state_def mc_tm_set_state_def Let_def
      tm_get_ta_state_def tm_get_clause_weights_def tm_set_ta_state_def
      tm_set_clause_weights_def)

lemma restore_classes:
  assumes "m \<le> length (tsetlin_machines original)" "m \<le> length (tsetlin_machines other)"
  shows "for_loop [0..<m] (\<lambda>class mc. restore_class original mc (int class)) other =
         Inr (other\<lparr>tsetlin_machines :=
                map (\<lambda>i. (tsetlin_machines other ! i)
                            \<lparr>ta_state := ta_state (tsetlin_machines original ! i),
                             clause_weights := clause_weights (tsetlin_machines original ! i)\<rparr>)
                  [0..<m]
                @ drop m (tsetlin_machines other)\<rparr>)"
  using assms
proof (induction m)
  case 0
  then show ?case by simp
next
  case (Suc m)
  define f where "f = (\<lambda>i. (tsetlin_machines other ! i)
                            \<lparr>ta_state := ta_state (tsetlin_machines original ! i),
                             clause_weights := clause_weights (tsetlin_machines original ! i)\<rparr>)"
  define mid where "mid = other\<lparr>tsetlin_machines := map f [0..<m] @ drop m (tsetlin_machines other)\<rparr>"
  from Suc have m: "m < length (tsetlin_machines original)" "m < length (tsetlin_machines other)"
    by simp_all
  have first: "for_loop [0..<m] (\<lambda>class mc. restore_class original mc (int class)) other = Inr mid"
    using Suc by (simp add: mid_def f_def)
  have nth: "tsetlin_machines mid ! m = tsetlin_machines other ! m"
    using m(2) by (simp add: mid_def index_prefix_nth)
  have len: "m < length (tsetlin_machines mid)" using m(2) by (simp add: mid_def)
  have "restore_class original mid (int m) =
        Inr (mid\<lparr>tsetlin_machines := (tsetlin_machines mid)[m := f m]\<rparr>)"
    using restore_class_result[OF m(1) len] nth by (simp add: f_def)
  also have "mid\<lparr>tsetlin_machines := (tsetlin_machines mid)[m := f m]\<rparr> =
             other\<lparr>tsetlin_machines := map f [0..<Suc m] @ drop (Suc m) (tsetlin_machines other)\<rparr>"
    using index_prefix_update[OF m(2), of f] by (simp add: mid_def)
  finally have "for_loop [0..<Suc m] (\<lambda>class mc. restore_class original mc (int class)) other =
        Inr (other\<lparr>tsetlin_machines := map f [0..<Suc m] @ drop (Suc m) (tsetlin_machines other)\<rparr>)"
    using first by (simp add: for_loop_append)
  then show ?case by (simp add: f_def)
qed

lemma predict_class_alike:
  assumes "score_ignores_cache tm_score"
    and "list_all2 same_but_cache (fst s) (fst t) \<and> snd s = snd t"
  shows "rel_sum (=) (\<lambda>s t. list_all2 same_but_cache (fst s) (fst t) \<and> snd s = snd t)
           (predict_class tm_score Xi i s) (predict_class tm_score Xi i t)"
proof -
  obtain tms max_sum max_class where s: "s = (tms, max_sum, max_class)" by (cases s)
  with assms(2) obtain tms' where t: "t = (tms', max_sum, max_class)"
    and rel: "list_all2 same_but_cache tms tms'"
    by (cases t) auto
  have len: "length tms = length tms'" using rel by (rule list_all2_lengthD)
  show ?thesis
  proof (cases "i < length tms")
    case False
    then show ?thesis using len by (simp add: predict_class_def s t)
  next
    case True
    then have "same_but_cache (tms ! i) (tms' ! i)" using rel by (simp add: list_all2_nthD)
    then have sc: "fst (tm_score (tms ! i) Xi) = fst (tm_score (tms' ! i) Xi)"
      "same_but_cache (snd (tm_score (tms ! i) Xi)) (snd (tm_score (tms' ! i) Xi))"
      using assms(1) unfolding score_ignores_cache_def by blast+
    have "list_all2 same_but_cache (tms[i := snd (tm_score (tms ! i) Xi)])
            (tms'[i := snd (tm_score (tms' ! i) Xi)])"
      using rel sc(2) by (rule list_all2_update_cong)
    then show ?thesis
      using True len sc(1)
      by (cases "tm_score (tms ! i) Xi"; cases "tm_score (tms' ! i) Xi")
        (simp add: predict_class_def s t)
  qed
qed

lemma predict_example_alike:
  assumes "score_ignores_cache tm_score"
    and "list_all2 same_but_cache (tsetlin_machines mc) (tsetlin_machines mc')"
    and "number_of_classes mc = number_of_classes mc'"
  shows "rel_sum (=)
           (\<lambda>r r'. fst r = fst r' \<and>
                   list_all2 same_but_cache (tsetlin_machines (snd r)) (tsetlin_machines (snd r')) \<and>
                   number_of_classes (snd r) = number_of_classes (snd r'))
           (predict_example tm_score mc Xi) (predict_example tm_score mc' Xi)"
proof (cases "tsetlin_machines mc")
  case Nil
  then have "tsetlin_machines mc' = []" using assms(2) by simp
  then show ?thesis using Nil by (simp add: predict_example_def)
next
  case (Cons tm0 rest)
  with assms(2) obtain tm0' rest' where
    Cons': "tsetlin_machines mc' = tm0' # rest'"
    and r0: "same_but_cache tm0 tm0'" and rr: "list_all2 same_but_cache rest rest'"
    by (cases "tsetlin_machines mc'") auto
  have sc: "fst (tm_score tm0 Xi) = fst (tm_score tm0' Xi)"
    "same_but_cache (snd (tm_score tm0 Xi)) (snd (tm_score tm0' Xi))"
    using assms(1) r0 unfolding score_ignores_cache_def by blast+
  define k where "k = nat (number_of_classes mc)"
  have k': "nat (number_of_classes mc') = k" using assms(3) by (simp add: k_def)
  have loop: "rel_sum (=) (\<lambda>s t. list_all2 same_but_cache (fst s) (fst t) \<and> snd s = snd t)
          (for_loop [1..<k] (predict_class tm_score Xi)
             (snd (tm_score tm0 Xi) # rest, fst (tm_score tm0 Xi), 0))
          (for_loop [1..<k] (predict_class tm_score Xi)
             (snd (tm_score tm0' Xi) # rest', fst (tm_score tm0' Xi), 0))"
    using sc rr by (intro for_loop_rel predict_class_alike[OF assms(1)]) simp_all
  show ?thesis
    using loop assms(3)
    unfolding predict_example_def Cons Cons' list.case k_def[symmetric] k'
    by (cases "tm_score tm0 Xi"; cases "tm_score tm0' Xi";
        cases "for_loop [1..<k] (predict_class tm_score Xi)
                 (snd (tm_score tm0 Xi) # rest, fst (tm_score tm0 Xi), 0)";
        cases "for_loop [1..<k] (predict_class tm_score Xi)
                 (snd (tm_score tm0' Xi) # rest', fst (tm_score tm0' Xi), 0)")
      auto
qed

lemma predict_alike:
  assumes "score_ignores_cache tm_score"
    and "list_all2 same_but_cache (tsetlin_machines mc) (tsetlin_machines mc')"
    and "number_of_classes mc = number_of_classes mc'"
    and "number_of_patches mc = number_of_patches mc'"
    and "mc_number_of_ta_chunks mc = mc_number_of_ta_chunks mc'"
  shows "map_sum id fst (mc_tm_predict tm_score mc X number_of_examples) =
         map_sum id fst (mc_tm_predict tm_score mc' X number_of_examples)"
proof -
  define step_size where
    "step_size = to_unsigned (number_of_patches mc * mc_number_of_ta_chunks mc)"
  have step': "to_unsigned (number_of_patches mc' * mc_number_of_ta_chunks mc') = step_size"
    using assms(4,5) by (simp add: step_size_def)
  define body where "body = (\<lambda>(l::nat) (mc1 :: 'a MultiClassTsetlinMachine, pos, y).
                case predict_example tm_score mc1 (drop pos X) of
                  Inl e \<Rightarrow> Inl e
                | Inr (max_class, mc2) \<Rightarrow> Inr (mc2, unsigned_add pos step_size, y @ [max_class]))"
  define Q where "Q = (\<lambda>(s :: 'a MultiClassTsetlinMachine \<times> nat \<times> int list)
      (t :: 'a MultiClassTsetlinMachine \<times> nat \<times> int list).
      list_all2 same_but_cache (tsetlin_machines (fst s)) (tsetlin_machines (fst t)) \<and>
      number_of_classes (fst s) = number_of_classes (fst t) \<and> snd s = snd t)"
  have step: "rel_sum (=) Q (body l s) (body l t)" if "Q s t" for l s t
  proof -
    obtain mc1 pos y where s: "s = (mc1, pos, y)" by (cases s)
    with that obtain mc1' where t: "t = (mc1', pos, y)"
      and rel: "list_all2 same_but_cache (tsetlin_machines mc1) (tsetlin_machines mc1')"
        "number_of_classes mc1 = number_of_classes mc1'"
      unfolding Q_def by (cases t) auto
    from predict_example_alike[OF assms(1) rel, of "drop pos X"] show ?thesis
      unfolding body_def s t prod.case Q_def
      by (cases "predict_example tm_score mc1 (drop pos X)";
          cases "predict_example tm_score mc1' (drop pos X)") auto
  qed
  have "rel_sum (=) Q (for_loop [0..<nat number_of_examples] body (mc, 0, []))
          (for_loop [0..<nat number_of_examples] body (mc', 0, []))"
    using assms(2,3) by (intro for_loop_rel step) (simp_all add: Q_def)
  then show ?thesis
    unfolding mc_tm_predict_def Let_def step' step_size_def[symmetric] body_def[symmetric] Q_def
    by (cases "for_loop [0..<nat number_of_examples] body (mc, 0, [])";
        cases "for_loop [0..<nat number_of_examples] body (mc', 0, [])") auto
qed

text \<open>C8, as the source has it: one class is not enough. When the state of every class
  is read from the original machine and written to the same class of another machine
  that has the same number of classes and the same layout and whose engines have the same
  configuration as the original's, then, for every score function that ignores the cache,
  the machine so restored predicts what the original predicts, on every input.\<close>

theorem restore_all_predicts_alike:
  assumes "score_ignores_cache tm_score"
    and "length (tsetlin_machines original) = nat (number_of_classes original)"
    and "list_all2 same_configuration (tsetlin_machines other) (tsetlin_machines original)"
    and "number_of_classes other = number_of_classes original"
    and "number_of_patches other = number_of_patches original"
    and "mc_number_of_ta_chunks other = mc_number_of_ta_chunks original"
  shows "\<exists>restored.
           restore_all original other = Inr restored \<and>
           map_sum id fst (mc_tm_predict tm_score restored X number_of_examples) =
           map_sum id fst (mc_tm_predict tm_score original X number_of_examples)"
proof -
  define k where "k = nat (number_of_classes original)"
  define f where "f = (\<lambda>i. (tsetlin_machines other ! i)
                            \<lparr>ta_state := ta_state (tsetlin_machines original ! i),
                             clause_weights := clause_weights (tsetlin_machines original ! i)\<rparr>)"
  define restored where "restored = other\<lparr>tsetlin_machines := map f [0..<k]\<rparr>"
  have len: "length (tsetlin_machines original) = k" "length (tsetlin_machines other) = k"
    using assms(2) list_all2_lengthD[OF assms(3)] by (simp_all add: k_def)
  have run: "restore_all original other = Inr restored"
    unfolding restore_all_def k_def[symmetric]
    using restore_classes[of k original other] len by (simp add: restored_def f_def)
  have "same_but_cache (f i) (tsetlin_machines original ! i)" if "i < k" for i
    using list_all2_nthD[OF assms(3), of i] that len
    by (simp add: same_but_cache_def same_configuration_def f_def)
  then have "list_all2 same_but_cache (tsetlin_machines restored) (tsetlin_machines original)"
    using len by (simp add: restored_def list_all2_conv_all_nth)
  then have "map_sum id fst (mc_tm_predict tm_score restored X number_of_examples) =
             map_sum id fst (mc_tm_predict tm_score original X number_of_examples)"
    using assms(4,5,6) by (intro predict_alike[OF assms(1)]) (simp_all add: restored_def)
  with run show ?thesis by blast
qed

lemma example_score_ignores_cache: "score_ignores_cache example_score"
  unfolding score_ignores_cache_def same_but_cache_def
proof (intro allI impI)
  fix tm tm' :: "unit tm" and Xi
  assume a: "tm\<lparr>clause_output := clause_output tm'\<rparr> = tm'"
  define co where "co = clause_output tm'"
  have tm': "tm' = tm\<lparr>clause_output := co\<rparr>" using a by (simp add: co_def)
  show "fst (example_score tm Xi) = fst (example_score tm' Xi) \<and>
        (snd (example_score tm Xi))\<lparr>clause_output := clause_output (snd (example_score tm' Xi))\<rparr> =
        snd (example_score tm' Xi)"
    unfolding tm' by (simp add: example_score_def)
qed

lemmas restore_eval = restore_all_def restore_class_def mc_tm_get_state_def mc_tm_set_state_def
  tm_get_ta_state_def tm_get_clause_weights_def tm_set_ta_state_def tm_set_clause_weights_def

lemma example_restore_all:
  "restore_all
     (example_mc [(example_machine [3])\<lparr>clause_output := [7]\<rparr>, example_machine [5]])
     (example_mc [example_machine [1], example_machine [1]]) =
   Inr (example_mc [example_machine [3], example_machine [5]])"
  by (simp add: restore_eval platform_eval example_mc_def example_machine_def)

theorem restore_all_predicts_alike_witness:
  "restore_all
     (example_mc [(example_machine [3])\<lparr>clause_output := [7]\<rparr>, example_machine [5]])
     (example_mc [example_machine [1], example_machine [1]]) =
   Inr (example_mc [example_machine [3], example_machine [5]]) \<and>
   map_sum id fst (mc_tm_predict example_score
     (example_mc [example_machine [3], example_machine [5]]) [5] 1) =
   map_sum id fst (mc_tm_predict example_score
     (example_mc [(example_machine [3])\<lparr>clause_output := [7]\<rparr>, example_machine [5]]) [5] 1)"
proof -
  define original where
    "original = example_mc [(example_machine [3])\<lparr>clause_output := [7]\<rparr>, example_machine [5]]"
  define other where "other = example_mc [example_machine [1], example_machine [1]]"
  have h2: "length (tsetlin_machines original) = nat (number_of_classes original)"
    and h4: "number_of_classes other = number_of_classes original"
    and h5: "number_of_patches other = number_of_patches original"
    and h6: "mc_number_of_ta_chunks other = mc_number_of_ta_chunks original"
    by (simp_all add: original_def other_def example_mc_def)
  have h3: "list_all2 same_configuration (tsetlin_machines other) (tsetlin_machines original)"
    by (simp add: original_def other_def example_mc_def example_machine_def
        same_configuration_def)
  from restore_all_predicts_alike[OF example_score_ignores_cache h2 h3 h4 h5 h6,
      where X = "[5]" and number_of_examples = 1]
  show ?thesis
    unfolding original_def other_def by (simp add: example_restore_all)
qed

theorem restore_one_class_predicts_otherwise:
  "restore_class (example_mc [example_machine [3], example_machine [5]])
     (example_mc [example_machine [1], example_machine [1]]) 0 =
   Inr (example_mc [example_machine [3], example_machine [1]]) \<and>
   map_sum id fst (mc_tm_predict example_score
     (example_mc [example_machine [3], example_machine [5]]) [5] 1) = Inr [1] \<and>
   map_sum id fst (mc_tm_predict example_score
     (example_mc [example_machine [3], example_machine [1]]) [5] 1) = Inr [0]"
  by (simp add: restore_eval predict_defs platform_eval example_defs)

section \<open>The transform\<close>

lemmas transform_defs = mc_tm_transform_def transform_class_def transform_clause_def
  clause_bit_def transformed_bit_def to_unsigned_def UINT_MAX_def size_t_add_def SIZE_MAX_def

lemma example_transform_0:
  "mc_tm_transform example_score (example_mc [example_machine [1], example_machine [2]])
     [5, 2] 0 2 =
   Inr ([1, 0, 1, 1, 0, 1, 0, 1, 0, 0, 1, 0],
        example_mc [(example_machine [1])\<lparr>clause_output := [2]\<rparr>,
                    (example_machine [2])\<lparr>clause_output := [2]\<rparr>])"
  by (simp add: example_defs transform_defs upt_conv_Cons)

lemma example_transform_1:
  "mc_tm_transform example_score (example_mc [example_machine [1], example_machine [2]])
     [5, 2] 1 2 =
   Inr ([0, 1, 0, 0, 1, 0, 1, 0, 1, 1, 0, 1],
        example_mc [(example_machine [1])\<lparr>clause_output := [2]\<rparr>,
                    (example_machine [2])\<lparr>clause_output := [2]\<rparr>])"
  by (simp add: example_defs transform_defs upt_conv_Cons)

subsection \<open>The invert flag\<close>

lemma transformed_bit_nonzero: "invert \<noteq> 0 \<Longrightarrow> transformed_bit b invert = transformed_bit b 1"
  by (simp add: transformed_bit_def)

lemma transform_clause_nonzero:
  assumes "invert \<noteq> 0"
  shows "transform_clause tm invert = transform_clause tm 1"
  by (intro ext) (simp add: transform_clause_def transformed_bit_nonzero[OF assms])

lemma transform_class_nonzero:
  assumes "invert \<noteq> 0"
  shows "transform_class tm_score Xi invert = transform_class tm_score Xi 1"
  unfolding transform_class_def transform_clause_nonzero[OF assms] by (rule refl)

text \<open>C10: every non-zero value of \<open>invert\<close> gives the output and the final machine that
  \<open>invert = 1\<close> gives.\<close>

theorem transform_invert_boolean:
  assumes "invert \<noteq> 0"
  shows "mc_tm_transform tm_score mc X invert number_of_examples =
         mc_tm_transform tm_score mc X 1 number_of_examples"
  unfolding mc_tm_transform_def transform_class_nonzero[OF assms] by (rule refl)

theorem transform_invert_boolean_witness:
  "mc_tm_transform example_score (example_mc [example_machine [1], example_machine [2]])
     [5, 2] (- 7) 2 =
   Inr ([0, 1, 0, 0, 1, 0, 1, 0, 1, 1, 0, 1],
        example_mc [(example_machine [1])\<lparr>clause_output := [2]\<rparr>,
                    (example_machine [2])\<lparr>clause_output := [2]\<rparr>])"
  using transform_invert_boolean[of "- 7" example_score
      "example_mc [example_machine [1], example_machine [2]]" "[5, 2]" 2]
  by (simp add: example_transform_1)

lemma transform_clause_complement:
  assumes "list_all2 complementary out0 out1"
  shows "rel_sum (=) (list_all2 complementary)
           (transform_clause tm 0 j out0) (transform_clause tm 1 j out1)"
  using assms
  by (simp add: transform_clause_def transformed_bit_def complementary_def list_all2_appendI)

lemma transform_class_complement:
  assumes "fst t = fst s \<and> list_all2 complementary (snd s) (snd t)"
  shows "rel_sum (=) (\<lambda>s t. fst t = fst s \<and> list_all2 complementary (snd s) (snd t))
           (transform_class tm_score Xi 0 i s) (transform_class tm_score Xi 1 i t)"
proof -
  obtain tms out0 where s: "s = (tms, out0)" by (cases s)
  with assms obtain out1 where t: "t = (tms, out1)" and c: "list_all2 complementary out0 out1"
    by (cases t) auto
  show ?thesis
  proof (cases "i < length tms")
    case False
    then show ?thesis by (simp add: transform_class_def s t)
  next
    case True
    obtain class_sum tm' where sc: "tm_score (tms ! i) Xi = (class_sum, tm')"
      by (cases "tm_score (tms ! i) Xi")
    have "rel_sum (=) (list_all2 complementary)
            (for_loop [0..<nat (number_of_clauses tm')] (transform_clause tm' 0) out0)
            (for_loop [0..<nat (number_of_clauses tm')] (transform_clause tm' 1) out1)"
      using c by (intro for_loop_rel transform_clause_complement)
    then show ?thesis
      using True sc
      by (cases "for_loop [0..<nat (number_of_clauses tm')] (transform_clause tm' 0) out0";
          cases "for_loop [0..<nat (number_of_clauses tm')] (transform_clause tm' 1) out1")
        (simp_all add: transform_class_def s t)
  qed
qed

lemma transform_example_complement:
  assumes "fst t = fst s \<and> fst (snd t) = fst (snd s) \<and>
           list_all2 complementary (snd (snd s)) (snd (snd t))"
  shows "rel_sum (=)
           (\<lambda>s t. fst t = fst s \<and> fst (snd t) = fst (snd s) \<and>
                  list_all2 complementary (snd (snd s)) (snd (snd t)))
           ((\<lambda>(tms, pos, X_transformed).
                case for_loop cs (transform_class tm_score (drop pos X) 0) (tms, X_transformed) of
                  Inl e \<Rightarrow> Inl e
                | Inr (tms', X_transformed') \<Rightarrow> Inr (tms', size_t_add pos step, X_transformed')) s)
           ((\<lambda>(tms, pos, X_transformed).
                case for_loop cs (transform_class tm_score (drop pos X) 1) (tms, X_transformed) of
                  Inl e \<Rightarrow> Inl e
                | Inr (tms', X_transformed') \<Rightarrow> Inr (tms', size_t_add pos step, X_transformed')) t)"
proof -
  obtain tms pos out0 where s: "s = (tms, pos, out0)" by (cases s)
  with assms obtain out1 where t: "t = (tms, pos, out1)"
    and c: "list_all2 complementary out0 out1"
    by (cases t) auto
  have "rel_sum (=) (\<lambda>s t. fst t = fst s \<and> list_all2 complementary (snd s) (snd t))
          (for_loop cs (transform_class tm_score (drop pos X) 0) (tms, out0))
          (for_loop cs (transform_class tm_score (drop pos X) 1) (tms, out1))"
    using c by (intro for_loop_rel transform_class_complement) simp_all
  then show ?thesis
    by (cases "for_loop cs (transform_class tm_score (drop pos X) 0) (tms, out0)";
        cases "for_loop cs (transform_class tm_score (drop pos X) 1) (tms, out1)")
      (auto simp: s t)
qed

lemma transform_complement_rel:
  "rel_sum (=) (\<lambda>r0 r1. snd r1 = snd r0 \<and> list_all2 complementary (fst r0) (fst r1))
     (mc_tm_transform tm_score mc X 0 number_of_examples)
     (mc_tm_transform tm_score mc X 1 number_of_examples)"
proof -
  define step where "step = to_unsigned (number_of_patches mc * mc_number_of_ta_chunks mc)"
  define cs where "cs = [0..<nat (number_of_classes mc)]"
  define body where "body = (\<lambda>invert (l::nat) (tms :: 'a tm list, pos, X_transformed).
                case for_loop cs (transform_class tm_score (drop pos X) invert) (tms, X_transformed) of
                  Inl e \<Rightarrow> Inl e
                | Inr (tms', X_transformed') \<Rightarrow> Inr (tms', size_t_add pos step, X_transformed'))"
  have "rel_sum (=)
          (\<lambda>s t. fst t = fst s \<and> fst (snd t) = fst (snd s) \<and>
                 list_all2 complementary (snd (snd s)) (snd (snd t)))
          (for_loop [0..<nat number_of_examples] (body 0) (tsetlin_machines mc, 0, []))
          (for_loop [0..<nat number_of_examples] (body 1) (tsetlin_machines mc, 0, []))"
    unfolding body_def by (intro for_loop_rel transform_example_complement) simp_all
  then show ?thesis
    unfolding mc_tm_transform_def Let_def step_def[symmetric] cs_def[symmetric] body_def
    by (cases "for_loop [0..<nat number_of_examples] (\<lambda>l (tms, pos, X_transformed).
                case for_loop cs (transform_class tm_score (drop pos X) 0) (tms, X_transformed) of
                  Inl e \<Rightarrow> Inl e
                | Inr (tms', X_transformed') \<Rightarrow> Inr (tms', size_t_add pos step, X_transformed')) (tsetlin_machines mc, 0, [])";
        cases "for_loop [0..<nat number_of_examples] (\<lambda>l (tms, pos, X_transformed).
                case for_loop cs (transform_class tm_score (drop pos X) 1) (tms, X_transformed) of
                  Inl e \<Rightarrow> Inl e
                | Inr (tms', X_transformed') \<Rightarrow> Inr (tms', size_t_add pos step, X_transformed')) (tsetlin_machines mc, 0, [])")
      (auto)
qed

text \<open>C6: from the same machine and input, the transform with \<open>invert = 0\<close> and the
  transform with \<open>invert = 1\<close> either both stop at the same undefined step, or both return,
  with the same final machine and with outputs of the same length that are complementary
  word by word.\<close>

theorem transform_invert_complement:
  "(\<exists>e. mc_tm_transform tm_score mc X 0 number_of_examples = Inl e \<and>
        mc_tm_transform tm_score mc X 1 number_of_examples = Inl e) \<or>
   (\<exists>out0 out1 mc'.
        mc_tm_transform tm_score mc X 0 number_of_examples = Inr (out0, mc') \<and>
        mc_tm_transform tm_score mc X 1 number_of_examples = Inr (out1, mc') \<and>
        list_all2 complementary out0 out1)"
  using transform_complement_rel[of tm_score mc X number_of_examples]
  by (cases "mc_tm_transform tm_score mc X 0 number_of_examples";
      cases "mc_tm_transform tm_score mc X 1 number_of_examples") auto

theorem transform_invert_complement_witness:
  "mc_tm_transform example_score (example_mc [example_machine [1], example_machine [2]])
     [5, 2] 0 2 =
   Inr ([1, 0, 1, 1, 0, 1, 0, 1, 0, 0, 1, 0],
        example_mc [(example_machine [1])\<lparr>clause_output := [2]\<rparr>,
                    (example_machine [2])\<lparr>clause_output := [2]\<rparr>]) \<and>
   mc_tm_transform example_score (example_mc [example_machine [1], example_machine [2]])
     [5, 2] 1 2 =
   Inr ([0, 1, 0, 0, 1, 0, 1, 0, 1, 1, 0, 1],
        example_mc [(example_machine [1])\<lparr>clause_output := [2]\<rparr>,
                    (example_machine [2])\<lparr>clause_output := [2]\<rparr>]) \<and>
   list_all2 complementary [1, 0, 1, 1, 0, 1, 0, 1, 0, 0, 1, 0] [0, 1, 0, 0, 1, 0, 1, 0, 1, 1, 0, 1]"
  using transform_invert_complement[of example_score
      "example_mc [example_machine [1], example_machine [2]]" "[5, 2]" 2]
  by (simp add: example_transform_0 example_transform_1)

subsection \<open>The layout of the output\<close>

lemma transformed_bit_differs:
  "transformed_bit clause_out invert = (if clause_out \<noteq> (invert \<noteq> 0) then 1 else 0)"
  by (simp add: transformed_bit_def)

lemma transform_clauses:
  assumes "nat (number_of_clauses tm) \<le> 32 * length (clause_output tm)"
  shows "for_loop [0..<nat (number_of_clauses tm)] (transform_clause tm invert) out =
         Inr (out @ map (\<lambda>j. transformed_bit (clause_bit tm j) invert)
                      [0..<nat (number_of_clauses tm)])"
proof (rule for_loop_emit)
  fix j s
  assume "j \<in> set [0..<nat (number_of_clauses tm)]"
  then have "j div 32 < length (clause_output tm)" using assms by auto
  then show "transform_clause tm invert j s = Inr (s @ [transformed_bit (clause_bit tm j) invert])"
    by (simp add: transform_clause_def)
qed

lemma transform_classes:
  assumes "clause_output_fits engine_ok tm_score clauses"
    and "\<forall>tm \<in> set tms. engine_ok tm"
    and "c \<le> length tms"
  shows "for_loop [0..<c] (transform_class tm_score Xi invert) (tms, out) =
         Inr (map (\<lambda>tm. snd (tm_score tm Xi)) (take c tms) @ drop c tms,
              out @ concat (map (\<lambda>i. map (\<lambda>j. transformed_bit
                                                   (clause_bit (snd (tm_score (tms ! i) Xi)) j) invert)
                                          [0..<nat clauses])
                              [0..<c]))"
  using assms(3)
proof (induction c)
  case 0
  then show ?case by simp
next
  case (Suc c)
  define f where "f = (\<lambda>tm. snd (tm_score tm Xi))"
  define row where "row = (\<lambda>i. map (\<lambda>j. transformed_bit (clause_bit (f (tms ! i)) j) invert)
                                   [0..<nat clauses])"
  define mid where "mid = map f (take c tms) @ drop c tms"
  from Suc have c: "c < length tms" by simp
  have first: "for_loop [0..<c] (transform_class tm_score Xi invert) (tms, out) =
               Inr (mid, out @ concat (map row [0..<c]))"
    using Suc by (simp add: mid_def f_def row_def)
  have nth: "mid ! c = tms ! c" unfolding mid_def using c by (rule map_prefix_nth)
  have upd: "mid[c := f (tms ! c)] = map f (take (Suc c) tms) @ drop (Suc c) tms"
    unfolding mid_def using c by (rule map_prefix_update)
  have len: "c < length mid" using c by (simp add: mid_def)
  have "engine_ok (tms ! c)" using assms(2) c by simp
  then have fits: "number_of_clauses (f (tms ! c)) = clauses"
      "nat clauses \<le> 32 * length (clause_output (f (tms ! c)))"
    using assms(1) unfolding clause_output_fits_def f_def by blast+
  have inner: "for_loop [0..<nat (number_of_clauses (f (tms ! c)))]
                 (transform_clause (f (tms ! c)) invert) (out @ concat (map row [0..<c])) =
               Inr ((out @ concat (map row [0..<c])) @ row c)"
    using transform_clauses[of "f (tms ! c)" invert] fits by (simp add: row_def)
  have step: "transform_class tm_score Xi invert c (mid, out @ concat (map row [0..<c])) =
              Inr (map f (take (Suc c) tms) @ drop (Suc c) tms,
                   out @ concat (map row [0..<Suc c]))"
    using len nth upd inner
    by (cases "tm_score (tms ! c) Xi") (simp add: transform_class_def f_def)
  have "for_loop [0..<Suc c] (transform_class tm_score Xi invert) (tms, out) =
        Inr (map f (take (Suc c) tms) @ drop (Suc c) tms, out @ concat (map row [0..<Suc c]))"
    using first step by (simp add: for_loop_append)
  then show ?case by (simp add: f_def row_def)
qed

lemma scored_ok:
  assumes "clause_output_fits engine_ok tm_score clauses" "engine_ok tm"
  shows "engine_ok (scored tm_score example l tm)"
  using assms by (induction l) (simp_all add: clause_output_fits_def)

lemma transform_examples:
  assumes "clause_output_fits engine_ok tm_score clauses"
    and "\<forall>tm \<in> set tms. engine_ok tm"
  shows "for_loop [0..<n]
           (\<lambda>l (tms1, pos, X_transformed).
              case for_loop [0..<length tms]
                     (transform_class tm_score (drop pos X) invert) (tms1, X_transformed) of
                Inl e \<Rightarrow> Inl e
              | Inr (tms', X_transformed') \<Rightarrow>
                  Inr (tms', size_t_add pos step_size, X_transformed'))
           (tms, 0, []) =
         Inr (map (scored tm_score (example_at (SIZE_MAX + 1) step_size X) n) tms,
              (n * step_size) mod (SIZE_MAX + 1),
              concat (map (\<lambda>l. concat (map (\<lambda>i. map (\<lambda>j. transformed_bit
                     (clause_bit (scored tm_score (example_at (SIZE_MAX + 1) step_size X)
                                    (Suc l) (tms ! i)) j) invert)
                   [0..<nat clauses]) [0..<length tms])) [0..<n]))"
proof (induction n)
  case 0
  show ?case by (simp add: map_idI)
next
  case (Suc n)
  define ex where "ex = example_at (SIZE_MAX + 1) step_size X"
  define body where "body = (\<lambda>(l::nat) (tms1 :: 'a tm list, pos, X_transformed).
              case for_loop [0..<length tms]
                     (transform_class tm_score (drop pos X) invert) (tms1, X_transformed) of
                Inl e \<Rightarrow> Inl e
              | Inr (tms', X_transformed') \<Rightarrow>
                  Inr (tms', size_t_add pos step_size, X_transformed'))"
  define block where "block = (\<lambda>l. concat (map (\<lambda>i. map (\<lambda>j. transformed_bit
                     (clause_bit (scored tm_score ex (Suc l) (tms ! i)) j) invert)
                   [0..<nat clauses]) [0..<length tms]))"
  define tmsn where "tmsn = map (scored tm_score ex n) tms"
  have first: "for_loop [0..<n] body (tms, 0, []) =
               Inr (tmsn, (n * step_size) mod (SIZE_MAX + 1), concat (map block [0..<n]))"
    using Suc by (simp add: ex_def body_def block_def tmsn_def)
  have pos: "drop ((n * step_size) mod (SIZE_MAX + 1)) X = ex n"
    by (simp add: ex_def example_at_def)
  have clauses: "\<forall>tm \<in> set tmsn. engine_ok tm"
    using assms by (auto simp: tmsn_def scored_ok)
  have blk: "concat (map (\<lambda>i. map (\<lambda>j. transformed_bit
                   (clause_bit (snd (tm_score (tmsn ! i) (ex n))) j) invert)
                 [0..<nat clauses]) [0..<length tms]) = block n"
    unfolding block_def tmsn_def
    by (rule arg_cong[where f = concat], rule map_cong) simp_all
  have classes: "for_loop [0..<length tms] (transform_class tm_score (ex n) invert)
                   (tmsn, concat (map block [0..<n])) =
                 Inr (map (\<lambda>tm. snd (tm_score tm (ex n))) tmsn,
                      concat (map block [0..<n]) @ block n)"
    unfolding blk[symmetric]
    using transform_classes[OF assms(1) clauses, of "length tms" "ex n" invert
        "concat (map block [0..<n])"]
    by (simp add: tmsn_def)
  have nxt: "map (\<lambda>tm. snd (tm_score tm (ex n))) tmsn = map (scored tm_score ex (Suc n)) tms"
    by (simp add: tmsn_def)
  have step: "body n (tmsn, (n * step_size) mod (SIZE_MAX + 1), concat (map block [0..<n])) =
              Inr (map (scored tm_score ex (Suc n)) tms,
                   (Suc n * step_size) mod (SIZE_MAX + 1), concat (map block [0..<Suc n]))"
    unfolding body_def prod.case pos classes nxt
    by (simp only: sum.case prod.case size_t_add_position) simp
  have "for_loop [0..<Suc n] body (tms, 0, []) =
        Inr (map (scored tm_score ex (Suc n)) tms,
             (Suc n * step_size) mod (SIZE_MAX + 1), concat (map block [0..<Suc n]))"
    using first step by (simp add: for_loop_append)
  then show ?case by (simp add: ex_def body_def block_def)
qed

text \<open>C7: on a machine with one engine per class, whose engines satisfy an invariant on
  which the score function fits \<open>clauses\<close> clauses, the transform returns
  \<open>number_of_examples\<close> rows of \<open>number_of_classes * clauses\<close> words, example by example,
  within a row class by class in index order, within a class clause by clause in index
  order. The word of example \<open>l\<close>, class \<open>i\<close> and clause \<open>j\<close> is 1 exactly when bit \<open>j\<close>
  of \<open>clause_output\<close>, as the score of engine \<open>i\<close> on example \<open>l\<close> leaves it, being set
  differs from \<open>invert\<close> being non-zero, and 0 otherwise.\<close>

theorem transform_layout:
  assumes "length (tsetlin_machines mc) = nat (number_of_classes mc)"
    and "\<forall>tm \<in> set (tsetlin_machines mc). engine_ok tm"
    and "clause_output_fits engine_ok tm_score clauses"
  shows "\<exists>X_transformed mc'.
           mc_tm_transform tm_score mc X invert number_of_examples = Inr (X_transformed, mc') \<and>
           length X_transformed =
             nat number_of_examples * (nat (number_of_classes mc) * nat clauses) \<and>
           (\<forall>l < nat number_of_examples. \<forall>i < nat (number_of_classes mc). \<forall>j < nat clauses.
              X_transformed ! (l * (nat (number_of_classes mc) * nat clauses) + i * nat clauses + j) =
                (if clause_bit
                      (scored tm_score
                         (example_at (SIZE_MAX + 1)
                            (to_unsigned (number_of_patches mc * mc_number_of_ta_chunks mc)) X)
                         (Suc l) (tsetlin_machines mc ! i)) j
                    \<noteq> (invert \<noteq> 0)
                 then 1 else 0))"
proof -
  define step_size where
    "step_size = to_unsigned (number_of_patches mc * mc_number_of_ta_chunks mc)"
  define ex where "ex = example_at (SIZE_MAX + 1) step_size X"
  define tms where "tms = tsetlin_machines mc"
  define k where "k = nat (number_of_classes mc)"
  define m where "m = nat clauses"
  define n where "n = nat number_of_examples"
  define row where "row = (\<lambda>l i. map (\<lambda>j. transformed_bit
                     (clause_bit (scored tm_score ex (Suc l) (tms ! i)) j) invert) [0..<m])"
  define block where "block = (\<lambda>l. concat (map (row l) [0..<k]))"
  define out where "out = concat (map block [0..<n])"
  have k: "length tms = k" using assms(1) by (simp add: tms_def k_def)
  have run: "for_loop [0..<n]
           (\<lambda>l (tms1, pos, X_transformed).
              case for_loop [0..<k]
                     (transform_class tm_score (drop pos X) invert) (tms1, X_transformed) of
                Inl e \<Rightarrow> Inl e
              | Inr (tms', X_transformed') \<Rightarrow>
                  Inr (tms', size_t_add pos step_size, X_transformed'))
           (tms, 0, []) =
         Inr (map (scored tm_score ex n) tms, (n * step_size) mod (SIZE_MAX + 1), out)"
    using transform_examples[OF assms(3), where tms = tms and n = n and X = X
        and invert = invert and step_size = step_size] assms(2)
    by (simp add: tms_def[symmetric] k ex_def out_def block_def row_def m_def)
  have result: "mc_tm_transform tm_score mc X invert number_of_examples =
                Inr (out, mc\<lparr>tsetlin_machines := map (scored tm_score ex n) tms\<rparr>)"
    unfolding mc_tm_transform_def Let_def step_size_def[symmetric] tms_def[symmetric]
      k_def[symmetric] n_def[symmetric] run
    by simp
  have row_len: "length (row l i) = m" for l i by (simp add: row_def)
  have block_len: "length (block l) = k * m" for l
    unfolding block_def by (rule concat_blocks_length) (rule row_len)
  have out_len: "length out = n * (k * m)"
    unfolding out_def by (rule concat_blocks_length) (rule block_len)
  have entry: "out ! (l * (k * m) + i * m + j) =
               (if clause_bit (scored tm_score ex (Suc l) (tms ! i)) j \<noteq> (invert \<noteq> 0)
                then 1 else 0)"
    if l: "l < n" and i: "i < k" and j: "j < m" for l i j
  proof -
    have "i * m + j < Suc i * m" using j by simp
    also have "\<dots> \<le> k * m" using i by (intro mult_le_mono1) simp
    finally have b: "i * m + j < k * m" .
    have "out ! (l * (k * m) + (i * m + j)) = block l ! (i * m + j)"
      unfolding out_def using block_len l b by (intro concat_blocks_nth) simp_all
    also have "\<dots> = row l i ! j"
      unfolding block_def using row_len i j by (intro concat_blocks_nth) simp_all
    also have "\<dots> = transformed_bit (clause_bit (scored tm_score ex (Suc l) (tms ! i)) j) invert"
      using j by (simp add: row_def)
    finally show ?thesis by (simp add: transformed_bit_differs add.assoc)
  qed
  show ?thesis
    unfolding step_size_def[symmetric] ex_def[symmetric] tms_def[symmetric] k_def[symmetric]
      m_def[symmetric] n_def[symmetric]
    using result out_len entry by blast
qed

lemma example_score_fits:
  "clause_output_fits (\<lambda>tm. number_of_clauses tm = 3 \<and> number_of_clause_chunks tm = 1)
     example_score 3"
  by (auto simp: clause_output_fits_def example_score_def min_def)

theorem transform_layout_witness:
  "mc_tm_transform example_score (example_mc [example_machine [1], example_machine [2]])
     [5, 2] 1 2 =
   Inr ([0, 1, 0, 0, 1, 0, 1, 0, 1, 1, 0, 1],
        example_mc [(example_machine [1])\<lparr>clause_output := [2]\<rparr>,
                    (example_machine [2])\<lparr>clause_output := [2]\<rparr>]) \<and>
   length [0, 1, 0, 0, 1, 0, 1, 0, 1, 1, 0, 1 :: word32] = nat 2 * (nat 2 * nat 3)"
proof -
  have "length (tsetlin_machines (example_mc [example_machine [1], example_machine [2]])) =
        nat (number_of_classes (example_mc [example_machine [1], example_machine [2]]))"
    by (simp add: example_mc_def)
  moreover have "\<forall>tm \<in> set (tsetlin_machines (example_mc [example_machine [1], example_machine [2]])).
                   number_of_clauses tm = 3 \<and> number_of_clause_chunks tm = 1"
    by (simp add: example_mc_def example_machine_def)
  ultimately have "\<exists>X_transformed mc'.
      mc_tm_transform example_score (example_mc [example_machine [1], example_machine [2]])
        [5, 2] 1 2 = Inr (X_transformed, mc') \<and>
      length X_transformed =
        nat 2 * (nat (number_of_classes (example_mc [example_machine [1], example_machine [2]]))
                  * nat 3)"
    using transform_layout[OF _ _ example_score_fits,
        where mc = "example_mc [example_machine [1], example_machine [2]]" and X = "[5, 2]"
        and invert = 1 and number_of_examples = 2]
    by blast
  then show ?thesis by (simp add: example_transform_1)
qed

end
